theory Spec2Isabelle
  imports Complex_Main "HOL-Library.Log_Nat"
begin

section \<open>Progress counters and the outstanding deficit\<close>

text \<open>
  The dashboard reports, for every tracked counter, the points earned so far and the
  maximum that can be earned. Only these two fields of a counter are read by the search
  engine. \<open>Counters\<close> groups the counter arrays the way the dashboard does.
\<close>

record Counter =
  pointProgress :: int
  pointProgressMax :: int

record Counters =
  pcSearch :: "Counter list"
  mobileSearch :: "Counter list"
  shopAndEarn :: "Counter list"
  activityAndQuiz :: "Counter list"
  dailyPoint :: "Counter list"

text \<open>Optional indexing \<open>xs?.[i]\<close>: \<open>undefined\<close> (here \<open>None\<close>) outside the array.\<close>

definition at_index :: "'a list \<Rightarrow> nat \<Rightarrow> 'a option" where
  "at_index xs i = (if i < length xs then Some (xs ! i) else None)"

text \<open>
  \<open>Search.calculatePoints\<close>: on mobile, when a mobile counter exists, the difference of
  its two fields; in every other case the sum of the differences of the first two
  desktop counters, a missing counter contributing 0.
\<close>

definition calculatePoints :: "bool \<Rightarrow> Counters \<Rightarrow> int" where
  "calculatePoints isMobile counters =
     (let mobileData = at_index (mobileSearch counters) 0;
          genericData = at_index (pcSearch counters) 0;
          edgeData = at_index (pcSearch counters) 1
      in case (isMobile, mobileData) of
           (True, Some m) \<Rightarrow> pointProgressMax m - pointProgress m
         | _ \<Rightarrow>
             (let genericMissing =
                    (case genericData of Some g \<Rightarrow> pointProgressMax g - pointProgress g
                                       | None \<Rightarrow> 0);
                  edgeMissing =
                    (case edgeData of Some e \<Rightarrow> pointProgressMax e - pointProgress e
                                    | None \<Rightarrow> 0)
              in genericMissing + edgeMissing))"

text \<open>The difference that \<open>calculatePoints\<close> takes of the two fields of one counter.\<close>

definition deficit :: "Counter \<Rightarrow> int" where
  "deficit c = pointProgressMax c - pointProgress c"

section \<open>Pacing: the adaptive delay between attempts\<close>

text \<open>
  The source computes the delay with JavaScript numbers, which are IEEE 754 binary64
  values: every arithmetic operation returns the representable number nearest to the
  exact result, a tie going to the number with the even significand. The model keeps a
  number as the rational it denotes and applies the rounding \<open>fl\<close> after every operation
  of the source. No value of the pacing code comes near the largest binary64 number, so
  the overflow to infinity is left out; the subnormal range is covered by the clamp of
  the exponent at -1022.
\<close>

text \<open>Rounding to the nearest integer, a tie going to the even one.\<close>

definition rne :: "rat \<Rightarrow> int" where
  "rne x = (let n = \<lfloor>x\<rfloor>; d = x - of_int n
     in if d < 1 / 2 then n else if 1 / 2 < d then n + 1 else if even n then n else n + 1)"

text \<open>
  The binary exponent of a non-zero rational \<open>x\<close>, the integer \<open>e\<close> with
  \<open>2 powi e \<le> \<bar>x\<bar> < 2 powi (e + 1)\<close>, computed from the bit lengths of numerator and
  denominator.
\<close>

definition expo :: "rat \<Rightarrow> int" where
  "expo x = (let (p, q) = quotient_of \<bar>x\<bar>; d = bitlen p - bitlen q
     in if 2 powi d \<le> \<bar>x\<bar> then d else d - 1)"

text \<open>
  The spacing of the binary64 numbers around \<open>x\<close>: 52 fraction bits below the exponent
  of \<open>x\<close>, the exponent being at least -1022. \<open>fl x\<close> is the binary64 number nearest to
  \<open>x\<close>.
\<close>

definition ulp :: "rat \<Rightarrow> rat" where
  "ulp x = 2 powi (max (expo x) (- 1022) - 52)"

definition fl :: "rat \<Rightarrow> rat" where
  "fl x = of_int (rne (x / ulp x)) * ulp x"

text \<open>A rational that is a binary64 number, and the exponent binary64 gives to \<open>x\<close>.\<close>

definition binary64 :: "rat \<Rightarrow> bool" where
  "binary64 x \<longleftrightarrow> fl x = x"

definition bexp :: "rat \<Rightarrow> int" where
  "bexp x = max (expo x) (- 1022)"

text \<open>
  The two pacing fields of the class \<open>Search\<close>. The failure counter only ever holds a
  natural number, which binary64 represents exactly below \<open>2 ^ 53\<close>; the model keeps it
  as a natural number. A decimal literal of the source denotes the binary64 number
  nearest to it: 0.2 is \<open>fl (2 / 10)\<close>, 0.1 is \<open>fl (1 / 10)\<close> and 0.5 is \<open>fl (5 / 10)\<close>,
  which is 1/2.
\<close>

record Search =
  consecutiveFailures :: nat
  adaptiveDelayMultiplier :: rat

definition initial_Search :: Search where
  "initial_Search = \<lparr>consecutiveFailures = 0, adaptiveDelayMultiplier = 1\<rparr>"

definition handleSearchFailure :: "Search \<Rightarrow> Search" where
  "handleSearchFailure s =
     s\<lparr>consecutiveFailures := consecutiveFailures s + 1,
       adaptiveDelayMultiplier := min 2 (fl (adaptiveDelayMultiplier s + fl (2 / 10)))\<rparr>"

definition handleSearchSuccess :: "Search \<Rightarrow> Search" where
  "handleSearchSuccess s =
     (let s1 = s\<lparr>consecutiveFailures := 0\<rparr>
      in if adaptiveDelayMultiplier s1 > 1
         then s1\<lparr>adaptiveDelayMultiplier := max 1 (fl (adaptiveDelayMultiplier s1 - fl (1 / 10)))\<rparr>
         else s1)"

definition baseMin :: "bool \<Rightarrow> rat" where
  "baseMin isMobile = (if isMobile then 60000 else 45000)"

definition baseMax :: "bool \<Rightarrow> rat" where
  "baseMax isMobile = (if isMobile then 150000 else 120000)"

definition failureMultiplier :: "Search \<Rightarrow> rat" where
  "failureMultiplier s = min (fl (1 + fl (of_nat (consecutiveFailures s) * fl (5 / 10)))) 3"

text \<open>
  The local constants \<open>adjustedMin\<close> and \<open>adjustedMax\<close> of
  \<open>Search.getSmartSearchDelay\<close>: the product \<open>base * failureMultiplier *
  adaptiveMultiplier\<close>, evaluated from the left and rounded after each multiplication.
\<close>

definition adjustedMin :: "bool \<Rightarrow> Search \<Rightarrow> rat" where
  "adjustedMin isMobile s =
     fl (fl (baseMin isMobile * failureMultiplier s) * adaptiveDelayMultiplier s)"

definition adjustedMax :: "bool \<Rightarrow> Search \<Rightarrow> rat" where
  "adjustedMax isMobile s =
     fl (fl (baseMax isMobile * failureMultiplier s) * adaptiveDelayMultiplier s)"

text \<open>
  \<open>Search.getSmartSearchDelay\<close>, in milliseconds: \<open>Math.floor(Math.random() *
  (adjustedMax - adjustedMin + 1)) + adjustedMin\<close>. The argument \<open>r\<close> is the value of
  \<open>Math.random()\<close>, a binary64 number in the interval from 0 (included) to 1 (excluded).
\<close>

definition getSmartSearchDelay :: "bool \<Rightarrow> Search \<Rightarrow> rat \<Rightarrow> rat" where
  "getSmartSearchDelay isMobile s r =
     fl (of_int \<lfloor>fl (r * fl (fl (adjustedMax isMobile s - adjustedMin isMobile s) + 1))\<rfloor>
         + adjustedMin isMobile s)"

text \<open>
  The invariant of the adaptive multiplier: a binary64 number between 1 and 2.
\<close>

definition paced :: "Search \<Rightarrow> bool" where
  "paced s \<longleftrightarrow> fl (adaptiveDelayMultiplier s) = adaptiveDelayMultiplier s
     \<and> 1 \<le> adaptiveDelayMultiplier s \<and> adaptiveDelayMultiplier s \<le> 2"

text \<open>
  A history of attempt outcomes as the pacing fields see it: \<open>True\<close> for a successful
  attempt (\<open>handleSearchSuccess\<close>), \<open>False\<close> for a failed one (\<open>handleSearchFailure\<close>).
\<close>

fun replay :: "Search \<Rightarrow> bool list \<Rightarrow> Search" where
  "replay s [] = s"
| "replay s (ok # h) = replay (if ok then handleSearchSuccess s else handleSearchFailure s) h"

section \<open>The planned queries\<close>

text \<open>
  A planned entry is either a plain string or a \<open>GoogleSearch\<close> object (a topic with its
  related terms). JavaScript compares strings by value and objects by reference, so an
  object entry is modelled by its reference and the objects live in a store.
\<close>

record GoogleSearch =
  topic :: string
  related :: "string list"

datatype query = Text string | Ref nat

type_synonym store = "nat \<Rightarrow> GoogleSearch"

text \<open>
  \<open>Array.from(new Set(xs))\<close>: the elements are inserted in order, an element that is
  already in the set is skipped, and the array lists the set in insertion order.
\<close>

definition Set_add :: "'a list \<Rightarrow> 'a \<Rightarrow> 'a list" where
  "Set_add s x = (if x \<in> set s then s else s @ [x])"

definition array_from_Set :: "'a list \<Rightarrow> 'a list" where
  "array_from_Set xs = foldl Set_add [] xs"

text \<open>
  The flattening of the planned entries into the strings that are searched: a plain
  string as it is, an object as its topic on mobile and as its topic followed by its
  related terms on desktop.
\<close>

fun push_query :: "bool \<Rightarrow> store \<Rightarrow> query \<Rightarrow> string list" where
  "push_query isMobile h (Text x) = [x]"
| "push_query isMobile h (Ref a) =
     (if isMobile then [topic (h a)] else topic (h a) # related (h a))"

definition flatten_queries :: "bool \<Rightarrow> store \<Rightarrow> query list \<Rightarrow> string list" where
  "flatten_queries isMobile h allSearchQueries = concat (map (push_query isMobile h) allSearchQueries)"

section \<open>One query attempt: \<open>Search.bingSearch\<close>\<close>

text \<open>
  What the browser does during one pass of the retry loop of \<open>bingSearch\<close>, as far as
  the control flow of the function can tell:
  \<^item> \<open>Unresponsive ok\<close>: the readiness probe of the page threw; \<open>ok\<close> tells whether a new
    page could be opened;
  \<^item> \<open>Fetched r\<close>: the query was typed and submitted and the final points fetch returned
    \<open>r\<close>, \<open>None\<close> when it threw or timed out;
  \<^item> \<open>Failed f\<close>: any other step threw; \<open>f\<close> holds the classification of the error
    message and the outcome of the recovery steps of the \<open>catch\<close> block.
\<close>

record failure =
  isBrowserClosed :: bool
  isCrashOrMemory :: bool
  newPageOk :: bool
  tabsResetOk :: bool

datatype attempt = Unresponsive bool | Fetched "Counters option" | Failed failure

text \<open>
  The browser during one call of \<open>bingSearch\<close>: the outcome of the pass with index \<open>i\<close>,
  and the result of the points fetch that \<open>getEmptySearchCounters\<close> tries first.
\<close>

record driver =
  attempts :: "nat \<Rightarrow> attempt"
  fallbackPoints :: "Counters option"

definition emptyCounters :: Counters where
  "emptyCounters = \<lparr>pcSearch = [], mobileSearch = [], shopAndEarn = [],
     activityAndQuiz = [], dailyPoint = []\<rparr>"

definition getEmptySearchCounters :: "driver \<Rightarrow> Counters" where
  "getEmptySearchCounters d =
     (case fallbackPoints d of Some c \<Rightarrow> c | None \<Rightarrow> emptyCounters)"

text \<open>
  One pass of the retry loop (\<open>for (let i = 0; i < 5; i++)\<close>) ends with a \<open>return\<close>,
  with \<open>continue\<close> (also the normal end of the body) or with \<open>break\<close>. Every path
  through the \<open>catch\<close> block has called \<open>handleSearchFailure\<close> first.
\<close>

datatype pass = Returns Counters Search | Continues Search | Breaks Search

definition bing_pass :: "driver \<Rightarrow> nat \<Rightarrow> Search \<Rightarrow> pass" where
  "bing_pass d i s =
     (case attempts d i of
        Unresponsive ok \<Rightarrow>
          if ok then Continues s else Returns (getEmptySearchCounters d) s
      | Fetched (Some searchPoints) \<Rightarrow> Returns searchPoints (handleSearchSuccess s)
      | Fetched None \<Rightarrow> Returns (getEmptySearchCounters d) s
      | Failed f \<Rightarrow>
          (let s' = handleSearchFailure s
           in if isBrowserClosed f then Returns (getEmptySearchCounters d) s'
              else if isCrashOrMemory f \<and> i < 4 then
                (if newPageOk f then Continues s'
                 else Returns (getEmptySearchCounters d) s')
              else if i = 4 then Breaks s'
              else if tabsResetOk f then Continues s'
              else Returns (getEmptySearchCounters d) s'))"

text \<open>The retry loop from pass \<open>i\<close> on, and the \<open>return\<close> that follows it.\<close>

function bingSearch_from :: "driver \<Rightarrow> nat \<Rightarrow> Search \<Rightarrow> Counters \<times> Search" where
  "bingSearch_from d i s =
     (if i < 5 then
        (case bing_pass d i s of
           Returns searchPoints s' \<Rightarrow> (searchPoints, s')
         | Continues s' \<Rightarrow> bingSearch_from d (i + 1) s'
         | Breaks s' \<Rightarrow> (getEmptySearchCounters d, s'))
      else (getEmptySearchCounters d, s))"
  by pat_completeness auto
termination
  by (relation "measure (\<lambda>(d, i, s). 5 - i)") auto

definition bingSearch :: "driver \<Rightarrow> Search \<Rightarrow> Counters \<times> Search" where
  "bingSearch d s = bingSearch_from d 0 s"


section \<open>The search campaign: \<open>Search.doSearch\<close>\<close>

text \<open>
  What the campaign does to the outside world, in order: a query handed to
  \<open>bingSearch\<close>, a fetch of the progress counters made by \<open>doSearch\<close> itself, a timed
  wait (milliseconds), and the log lines that mark a change of phase.
\<close>

datatype notice = Timeout | Stuck | ExtraStart | GenerateMore | ExtraStuck | Incomplete | Done

datatype effect = Searched string | PointsFetched | Waited rat | Logged notice

text \<open>An exception that leaves \<open>doSearch\<close>, named after the call that threw it.\<close>

datatype error = TabError | FetchError | PlanError | GotoError | TypeError

text \<open>
  How a block of a loop body ends: it falls through to the next statement (\<open>Proceed\<close>),
  executes \<open>continue\<close>, \<open>break\<close> or \<open>return\<close>, or throws.
\<close>

datatype 'a flow = Proceed 'a | Continue 'a | Break 'a | Return 'a | Throw error

fun is_Proceed :: "'a flow \<Rightarrow> bool" where
  "is_Proceed (Proceed x) = True"
| "is_Proceed other = False"

fun state_of :: "'a flow \<Rightarrow> 'a option" where
  "state_of (Proceed x) = Some x"
| "state_of (Continue x) = Some x"
| "state_of (Break x) = Some x"
| "state_of (Return x) = Some x"
| "state_of (Throw e) = None"

text \<open>The fields of the class and the local variables of \<open>doSearch\<close> that change.\<close>

record run =
  engine :: Search
  missingPoints :: int
  maxLoop :: nat
  earnedPoints :: int
  completedSearches :: nat
  lastSuccessfulQuery :: "string option"
  contextSearchCount :: nat
  extraSearchCount :: nat
  effects :: "effect list"

definition emit :: "effect \<Rightarrow> run \<Rightarrow> run" where
  "emit e st = st\<lparr>effects := effects st @ [e]\<rparr>"

text \<open>
  What the outside world answers during the iteration of the main loop with a given
  index: the time elapsed since the loop started (milliseconds), the outcome of
  \<open>shouldUseContextualSearch\<close> and of \<open>generateContextualSearches\<close>, the browser during
  the call of \<open>bingSearch\<close>, the results of the three out-of-band fetches of the counters
  (\<open>None\<close> when the fetch throws), whether the User-Agent could be renewed, and the value
  of \<open>Math.random()\<close> in \<open>getSmartSearchDelay\<close>.
\<close>

record iter_in =
  elapsed :: int
  ctxRoll :: bool
  ctxQueries :: "string list"
  browser :: driver
  forceCheck :: "Counters option"
  finalVerify :: "Counters option"
  uaRefreshOk :: bool
  finalCheck :: "Counters option"
  rnd :: rat

definition searchTimeoutMs :: int where
  "searchTimeoutMs = 20 * 60 * 1000"

definition maxLoopLimit :: "bool \<Rightarrow> nat" where
  "maxLoopLimit isMobile = (if isMobile then 10 else 15)"

text \<open>JavaScript truthiness of a string that may be \<open>null\<close>: set and not empty.\<close>

fun truthy :: "string option \<Rightarrow> bool" where
  "truthy None = False"
| "truthy (Some x) = (x \<noteq> [])"

text \<open>The choice between the planned query and a contextual one.\<close>

definition select_query :: "iter_in \<Rightarrow> string \<Rightarrow> run \<Rightarrow> string \<times> run" where
  "select_query inp q st =
     (if ctxRoll inp \<and> truthy (lastSuccessfulQuery st) \<and> contextSearchCount st < 3 then
        (if truthy (at_index (ctxQueries inp) 0)
         then (hd (ctxQueries inp), st\<lparr>contextSearchCount := contextSearchCount st + 1\<rparr>)
         else (q, st))
      else (q, st\<lparr>contextSearchCount := 0\<rparr>))"

text \<open>The forced re-fetch of the counters when the stall counter is 3.\<close>

definition force_check :: "bool \<Rightarrow> iter_in \<Rightarrow> run \<Rightarrow> run flow" where
  "force_check isMobile inp st =
     (let st1 = emit PointsFetched st
      in case forceCheck inp of
           Some forceCheckCounters \<Rightarrow>
             (let forceCheckMissingPoints = calculatePoints isMobile forceCheckCounters
              in if forceCheckMissingPoints \<noteq> missingPoints st1
                 then Continue (st1\<lparr>missingPoints := forceCheckMissingPoints, maxLoop := 0\<rparr>)
                 else Proceed st1)
         | None \<Rightarrow> Proceed st1)"

text \<open>
  The comparison of the new deficit with the tracked one: an equal deficit counts the
  stall counter up and runs the checks at 3, 5 and (desktop) 8; any other deficit sets
  the counter to 0 and records the query as the last successful one.
\<close>

definition note_stall :: "bool \<Rightarrow> iter_in \<Rightarrow> int \<Rightarrow> string \<Rightarrow> run \<Rightarrow> run flow" where
  "note_stall isMobile inp newMissingPoints query st =
     (if newMissingPoints = missingPoints st then
        (let st1 = st\<lparr>maxLoop := maxLoop st + 1\<rparr>
         in case (if maxLoop st1 = 3 then force_check isMobile inp st1 else Proceed st1) of
              Proceed st2 \<Rightarrow>
                (let st3 = (if maxLoop st2 = 5 then emit (Waited 30000) st2 else st2);
                     st4 = (if \<not> isMobile \<and> maxLoop st3 = 8 then emit (Waited 60000) st3 else st3)
                 in Proceed st4)
            | other \<Rightarrow> other)
      else Proceed (st\<lparr>maxLoop := 0, lastSuccessfulQuery := Some query\<rparr>))"

text \<open>The completion branch: a short wait and one more fetch, outside any \<open>try\<close>.\<close>

definition completion :: "iter_in \<Rightarrow> run \<Rightarrow> run flow" where
  "completion inp st =
     (let st1 = emit PointsFetched (emit (Waited 2000) st)
      in case finalVerify inp of
           Some finalCounters \<Rightarrow> Break st1
         | None \<Rightarrow> Throw FetchError)"

text \<open>Mobile only: renew the User-Agent, wait, set the counter to 0 and go on.\<close>

definition refresh_user_agent :: "iter_in \<Rightarrow> run \<Rightarrow> run flow" where
  "refresh_user_agent inp st =
     Continue ((emit (Waited (if uaRefreshOk inp then 30000 else 180000)) st)\<lparr>maxLoop := 0\<rparr>)"

text \<open>The stall counter is over the limit: one last fetch, then leave the loop.\<close>

definition give_up :: "bool \<Rightarrow> iter_in \<Rightarrow> run \<Rightarrow> run flow" where
  "give_up isMobile inp st =
     (let st1 = emit PointsFetched (emit (Waited 5000) (emit (Logged Stuck) st))
      in case finalCheck inp of
           Some finalCheckCounters \<Rightarrow>
             (let finalCheckMissingPoints = calculatePoints isMobile finalCheckCounters
              in if finalCheckMissingPoints < missingPoints st1 then
                   (let st2 = st1\<lparr>missingPoints := finalCheckMissingPoints\<rparr>
                    in if missingPoints st2 = 0 then Break st2
                       else Break (st2\<lparr>maxLoop := 0\<rparr>))
                 else Break (st1\<lparr>maxLoop := 0\<rparr>))
         | None \<Rightarrow> Break (st1\<lparr>maxLoop := 0\<rparr>))"

text \<open>The rest of the loop body once the new deficit is stored.\<close>

definition after_attempt :: "bool \<Rightarrow> iter_in \<Rightarrow> run \<Rightarrow> run flow" where
  "after_attempt isMobile inp st =
     (if missingPoints st = 0 then completion inp st
      else if maxLoop st > 5 \<and> isMobile then refresh_user_agent inp st
      else if maxLoop st > maxLoopLimit isMobile then give_up isMobile inp st
      else Continue (emit (Waited (getSmartSearchDelay isMobile (engine st) (rnd inp))) st))"

text \<open>The search itself and the bookkeeping of the points it earned.\<close>

definition run_attempt :: "bool \<Rightarrow> iter_in \<Rightarrow> string \<Rightarrow> run \<Rightarrow> int \<times> run" where
  "run_attempt isMobile inp query st =
     (let st1 = st\<lparr>completedSearches := completedSearches st + 1\<rparr>;
          (searchCounters, eng) = bingSearch (browser inp) (engine st1);
          st2 = (emit (Searched query) st1)\<lparr>engine := eng\<rparr>;
          newMissingPoints = calculatePoints isMobile searchCounters;
          pointsGained = missingPoints st2 - newMissingPoints;
          st3 = (if pointsGained > 0
                 then st2\<lparr>earnedPoints := earnedPoints st2 + pointsGained\<rparr> else st2)
      in (newMissingPoints, st3))"

text \<open>
  The deficit that the attempt of an iteration reports: \<open>calculatePoints\<close> of the
  counters that \<open>bingSearch\<close> returns.
\<close>

definition new_deficit :: "bool \<Rightarrow> iter_in \<Rightarrow> run \<Rightarrow> int" where
  "new_deficit isMobile inp st =
     calculatePoints isMobile (fst (bingSearch (browser inp) (engine st)))"

text \<open>The loop body after the attempt: the comparison, the assignment, the exits.\<close>

definition settle :: "bool \<Rightarrow> iter_in \<Rightarrow> int \<Rightarrow> string \<Rightarrow> run \<Rightarrow> run flow" where
  "settle isMobile inp newMissingPoints query st =
     (case note_stall isMobile inp newMissingPoints query st of
        Proceed st' \<Rightarrow> after_attempt isMobile inp (st'\<lparr>missingPoints := newMissingPoints\<rparr>)
      | other \<Rightarrow> other)"

text \<open>One iteration of the main loop over the planned queries.\<close>

definition search_iteration :: "bool \<Rightarrow> iter_in \<Rightarrow> string \<Rightarrow> run \<Rightarrow> run flow" where
  "search_iteration isMobile inp q st =
     (if elapsed inp > searchTimeoutMs then Break (emit (Logged Timeout) st)
      else
        (let (query, st1) = select_query inp q st;
             (newMissingPoints, st2) = run_attempt isMobile inp query st1
         in settle isMobile inp newMissingPoints query st2))"

text \<open>
  The main loop. \<open>Proceed\<close> is the end of the planned queries, \<open>Break\<close> a \<open>break\<close>;
  the iteration with index \<open>i\<close> reads the answers of the world with that index.
\<close>

fun search_loop :: "bool \<Rightarrow> (nat \<Rightarrow> iter_in) \<Rightarrow> nat \<Rightarrow> string list \<Rightarrow> run \<Rightarrow> run flow" where
  "search_loop isMobile w i [] st = Proceed st"
| "search_loop isMobile w i (q # queries) st =
     (case search_iteration isMobile (w i) q st of
        Proceed st' \<Rightarrow> search_loop isMobile w (i + 1) queries st'
      | Continue st' \<Rightarrow> search_loop isMobile w (i + 1) queries st'
      | other \<Rightarrow> other)"


subsection \<open>The supplementary searches\<close>

definition maxExtraSearches :: "bool \<Rightarrow> nat" where
  "maxExtraSearches isMobile = (if isMobile then 20 else 50)"

text \<open>
  The world around one call of \<open>doSearch\<close>. \<open>None\<close> stands for a call that throws.
  The fields follow the order of the calls: \<open>getLatestTab\<close>, the first fetch of the
  counters, \<open>generateDiversifiedQueries\<close> with the store of its objects,
  \<open>shuffleArray\<close>, \<open>page.goto\<close>, the answers during the main loop, and for the
  supplementary phase \<open>generateAdditionalQueries\<close> and \<open>getRelatedTerms\<close> (by the index
  of the entry they are called for), the browser during each supplementary attempt
  (by the number of attempts made before it), and the closing fetch on desktop.
  \<open>getRelatedTerms\<close> catches the errors of its request and then returns the empty
  list; otherwise it returns the second element of the response unchecked, so its
  result is a list of terms or, when the response has no such element, \<open>undefined\<close>
  (here \<open>None\<close>).
\<close>

record world =
  latestTabOk :: bool
  initialPoints :: "Counters option"
  generated :: "query list option"
  objects :: store
  shuffleArray :: "query list \<Rightarrow> query list"
  gotoOk :: bool
  iterations :: "nat \<Rightarrow> iter_in"
  additional :: "nat \<Rightarrow> query list"
  getRelatedTerms :: "nat \<Rightarrow> string \<Rightarrow> string list option"
  extraBrowser :: "nat \<Rightarrow> driver"
  detailPoints :: "Counters option"

text \<open>The searches for the related terms of one entry (the inner \<open>for\<close> loop).\<close>

fun extra_terms :: "bool \<Rightarrow> (nat \<Rightarrow> driver) \<Rightarrow> string list \<Rightarrow> run \<Rightarrow> run flow" where
  "extra_terms isMobile drv [] st = Proceed st"
| "extra_terms isMobile drv (term # terms) st =
     (if extraSearchCount st \<ge> maxExtraSearches isMobile then Break st
      else
        (let (searchCounters, eng) = bingSearch (drv (extraSearchCount st)) (engine st);
             newMissingPoints = calculatePoints isMobile searchCounters;
             st1 = (emit (Searched term) st)
                     \<lparr>engine := eng, extraSearchCount := extraSearchCount st + 1\<rparr>;
             st2 = (if newMissingPoints = missingPoints st1
                    then st1\<lparr>maxLoop := maxLoop st1 + 1\<rparr> else st1\<lparr>maxLoop := 0\<rparr>);
             st3 = st2\<lparr>missingPoints := newMissingPoints\<rparr>
         in if missingPoints st3 = 0 then Break st3
            else if maxLoop st3 > 5 then Return (emit (Logged ExtraStuck) st3)
            else extra_terms isMobile drv terms st3))"

fun query_topic :: "store \<Rightarrow> query \<Rightarrow> string" where
  "query_topic h (Text x) = x"
| "query_topic h (Ref a) = topic (h a)"

text \<open>
  One iteration of the outer \<open>while\<close> loop for the entry \<open>query\<close> with index \<open>i\<close>:
  \<open>Proceed\<close> when the loop goes on, \<open>Break\<close> when the deficit is 0, \<open>Return\<close> when the
  stall counter ended the function. Reading \<open>relatedTerms.length\<close> of an undefined
  result throws a \<open>TypeError\<close>, which nothing in \<open>doSearch\<close> catches.
\<close>

definition extra_round :: "bool \<Rightarrow> world \<Rightarrow> nat \<Rightarrow> query \<Rightarrow> run \<Rightarrow> run flow" where
  "extra_round isMobile w i query st =
     (case getRelatedTerms w i (query_topic (objects w) query) of
        None \<Rightarrow> Throw TypeError
      | Some relatedTerms \<Rightarrow>
          (case (if length relatedTerms > 3
                 then extra_terms isMobile (extraBrowser w) (take 2 (drop 1 relatedTerms)) st
                 else Proceed st) of
             Return st' \<Rightarrow> Return st'
           | Throw e \<Rightarrow> Throw e
           | Proceed st' \<Rightarrow> if missingPoints st' = 0 then Break st' else Proceed st'
           | Continue st' \<Rightarrow> if missingPoints st' = 0 then Break st' else Proceed st'
           | Break st' \<Rightarrow> if missingPoints st' = 0 then Break st' else Proceed st'))"

text \<open>
  The outer loop. It need not end, so its result is optional: \<open>None\<close> is a loop that
  runs forever. Reading \<open>allSearchQueries[i]\<close> past the end gives \<open>undefined\<close>, whose
  \<open>topic\<close> cannot be read: a \<open>TypeError\<close>.
\<close>

partial_function (option) extra_loop ::
  "bool \<Rightarrow> world \<Rightarrow> nat \<Rightarrow> query list \<Rightarrow> run \<Rightarrow> run flow option" where
  "extra_loop isMobile w i allSearchQueries st =
     (if missingPoints st > 0 \<and> extraSearchCount st < maxExtraSearches isMobile then
        (let more = (i \<ge> length allSearchQueries);
             allSearchQueries' = (if more then allSearchQueries @ additional w i
                                  else allSearchQueries);
             st1 = (if more then emit (Logged GenerateMore) st else st)
         in if i \<ge> length allSearchQueries' then Some (Throw TypeError)
            else
              (case extra_round isMobile w i (allSearchQueries' ! i) st1 of
                 Proceed st' \<Rightarrow> extra_loop isMobile w (i + 1) allSearchQueries' st'
               | other \<Rightarrow> Some other))
      else Some (Proceed st))"

text \<open>The end of \<open>doSearch\<close> once the supplementary loop is left.\<close>

definition wrap_up :: "bool \<Rightarrow> world \<Rightarrow> run \<Rightarrow> run flow" where
  "wrap_up isMobile w st =
     (if missingPoints st > 0 then
        (let st1 = emit (Logged Incomplete) st
         in if \<not> isMobile then
              (case detailPoints w of
                 Some finalCounters \<Rightarrow> Return (emit (Logged Done) (emit PointsFetched st1))
               | None \<Rightarrow> Throw FetchError)
            else Return (emit (Logged Done) st1))
      else Return (emit (Logged Done) st))"

definition extra_phase :: "bool \<Rightarrow> world \<Rightarrow> query list \<Rightarrow> run \<Rightarrow> run flow option" where
  "extra_phase isMobile w allSearchQueries st =
     (if missingPoints st > 0 then
        (case extra_loop isMobile w 0 allSearchQueries (emit (Logged ExtraStart) st) of
           None \<Rightarrow> None
         | Some (Return st') \<Rightarrow> Some (Return st')
         | Some (Throw e) \<Rightarrow> Some (Throw e)
         | Some (Proceed st') \<Rightarrow> Some (wrap_up isMobile w st')
         | Some (Continue st') \<Rightarrow> Some (wrap_up isMobile w st')
         | Some (Break st') \<Rightarrow> Some (wrap_up isMobile w st'))
      else Some (Return (emit (Logged Done) st)))"

subsection \<open>The whole campaign\<close>

definition start_run :: "Search \<Rightarrow> int \<Rightarrow> run" where
  "start_run s missing =
     \<lparr>engine = s, missingPoints = missing, maxLoop = 0, earnedPoints = 0,
      completedSearches = 0, lastSuccessfulQuery = None, contextSearchCount = 0,
      extraSearchCount = 0, effects = [PointsFetched]\<rparr>"

text \<open>
  \<open>doSearch\<close> for a device class, a world and the pacing fields at the time of the
  call. \<open>Some (Return st)\<close> is a normal return, \<open>Some (Throw e)\<close> an exception passed
  to the caller, \<open>None\<close> a call that never returns.
\<close>

definition doSearch :: "bool \<Rightarrow> world \<Rightarrow> Search \<Rightarrow> run flow option" where
  "doSearch isMobile w s =
     (if \<not> latestTabOk w then Some (Throw TabError)
      else
        (case initialPoints w of
           None \<Rightarrow> Some (Throw FetchError)
         | Some searchCounters \<Rightarrow>
             (let st0 = start_run s (calculatePoints isMobile searchCounters)
              in if missingPoints st0 = 0 then Some (Return st0)
                 else
                   (case generated w of
                      None \<Rightarrow> Some (Throw PlanError)
                    | Some allQueries \<Rightarrow>
                        (let allSearchQueries = array_from_Set (shuffleArray w allQueries)
                         in if \<not> gotoOk w then Some (Throw GotoError)
                            else
                              (let queries = flatten_queries isMobile (objects w) allSearchQueries
                               in case search_loop isMobile (iterations w) 0 queries
                                         (emit (Waited 2000) st0) of
                                    Throw e \<Rightarrow> Some (Throw e)
                                  | Return st \<Rightarrow> Some (Return st)
                                  | Proceed st \<Rightarrow> extra_phase isMobile w allSearchQueries st
                                  | Continue st \<Rightarrow> extra_phase isMobile w allSearchQueries st
                                  | Break st \<Rightarrow> extra_phase isMobile w allSearchQueries st))))))"


text \<open>The query an iteration searches and the state that its attempt leaves.\<close>

definition attempted :: "bool \<Rightarrow> iter_in \<Rightarrow> string \<Rightarrow> run \<Rightarrow> run" where
  "attempted isMobile inp q st =
     snd (run_attempt isMobile inp (fst (select_query inp q st)) (snd (select_query inp q st)))"

text \<open>The effects that a step adds to those of the state it started from.\<close>

definition added :: "run \<Rightarrow> run \<Rightarrow> effect list" where
  "added st st' = drop (length (effects st)) (effects st')"

fun is_Text :: "query \<Rightarrow> bool" where
  "is_Text (Text x) = True"
| "is_Text (Ref a) = False"

section \<open>Concrete counters, browsers and worlds\<close>

definition mobile_points :: "int \<Rightarrow> int \<Rightarrow> Counters" where
  "mobile_points p m =
     \<lparr>pcSearch = [], mobileSearch = [\<lparr>pointProgress = p, pointProgressMax = m\<rparr>],
      shopAndEarn = [], activityAndQuiz = [], dailyPoint = []\<rparr>"

definition desktop_points :: "int \<Rightarrow> int \<Rightarrow> Counters" where
  "desktop_points p m =
     \<lparr>pcSearch = [\<lparr>pointProgress = p, pointProgressMax = m\<rparr>], mobileSearch = [],
      shopAndEarn = [], activityAndQuiz = [], dailyPoint = []\<rparr>"

text \<open>A browser in which every search works and the dashboard shows \<open>c\<close>.\<close>

definition answering :: "Counters \<Rightarrow> driver" where
  "answering c = \<lparr>attempts = (\<lambda>i. Fetched (Some c)), fallbackPoints = Some c\<rparr>"

text \<open>A browser that is closed, while the dashboard can be fetched or not.\<close>

definition closed_browser :: "Counters option \<Rightarrow> driver" where
  "closed_browser r =
     \<lparr>attempts = (\<lambda>i. Failed \<lparr>isBrowserClosed = True, isCrashOrMemory = False,
                                newPageOk = False, tabsResetOk = False\<rparr>),
      fallbackPoints = r\<rparr>"

text \<open>
  A browser in which every pass of the retry loop fails with an error that is neither a
  closed browser nor a crash, while the tabs can be reset each time and the dashboard
  can be fetched afterwards.
\<close>

definition flaky_browser :: "Counters \<Rightarrow> driver" where
  "flaky_browser c =
     \<lparr>attempts = (\<lambda>i. Failed \<lparr>isBrowserClosed = False, isCrashOrMemory = False,
                                newPageOk = True, tabsResetOk = True\<rparr>),
      fallbackPoints = Some c\<rparr>"

text \<open>
  An iteration in which the clock is within the budget, no contextual query is drawn,
  the search works and every fetch of the dashboard shows \<open>c\<close>.
\<close>

definition quiet :: "Counters \<Rightarrow> iter_in" where
  "quiet c =
     \<lparr>elapsed = 0, ctxRoll = False, ctxQueries = [], browser = answering c,
      forceCheck = Some c, finalVerify = Some c, uaRefreshOk = True, finalCheck = Some c,
      rnd = 0\<rparr>"

text \<open>Two trending topics that share a related term.\<close>

definition two_trends :: store where
  "two_trends a =
     (if a = 0 then \<lparr>topic = ''weather'', related = [''forecast'']\<rparr>
      else \<lparr>topic = ''storm'', related = [''forecast'']\<rparr>)"

text \<open>
  A desktop world with 30 points missing in which nothing ever changes the counters.
  The parameters are the time that every iteration of the main loop reads from the
  clock, the answer of every related-terms lookup and the first fetch of the counters.
\<close>

definition still_world :: "int \<Rightarrow> string list \<Rightarrow> Counters option \<Rightarrow> world" where
  "still_world t terms first =
     \<lparr>latestTabOk = True, initialPoints = first, generated = Some [Text ''news''],
      objects = two_trends, shuffleArray = (\<lambda>xs. xs), gotoOk = True,
      iterations = (\<lambda>i. (quiet (desktop_points 0 30))\<lparr>elapsed := t\<rparr>),
      additional = (\<lambda>i. [Text ''more'']),
      getRelatedTerms = (\<lambda>i q. Some terms),
      extraBrowser = (\<lambda>n. answering (desktop_points 0 30)),
      detailPoints = Some (desktop_points 0 30)\<rparr>"

text \<open>Whether a run has logged that it is stuck and gives the main loop up.\<close>

definition gave_up :: "run flow \<Rightarrow> bool" where
  "gave_up r = (case state_of r of Some st \<Rightarrow> Logged Stuck \<in> set (effects st) | None \<Rightarrow> False)"

text \<open>
  Main loops on mobile: one in which the dashboard always shows 0 of 30 points, and one
  with 10 points missing in which it shows 20 of 30 twice and 15 of 30 from then on.
\<close>

definition stalled_mobile :: "nat \<Rightarrow> iter_in" where
  "stalled_mobile i = quiet (mobile_points 0 30)"

definition rising_mobile :: "nat \<Rightarrow> iter_in" where
  "rising_mobile i = (if i < 2 then quiet (mobile_points 20 30) else quiet (mobile_points 15 30))"

text \<open>An answer of the related-terms lookup with more than three terms.\<close>

definition four_terms :: "string list" where
  "four_terms = [''news'', ''news today'', ''news live'', ''news app'']"

text \<open>The effects of a call of \<open>doSearch\<close> that ends by returning or breaking.\<close>

definition effects_of :: "run flow option \<Rightarrow> effect list option" where
  "effects_of r = map_option effects (Option.bind r state_of)"


section \<open>Properties of the deficit computation\<close>

lemma calculatePoints_cases:
  "calculatePoints isMobile c =
     (if isMobile \<and> mobileSearch c \<noteq> [] then deficit (hd (mobileSearch c))
      else sum_list (map deficit (take 2 (pcSearch c))))"
  by (cases "mobileSearch c"; cases "pcSearch c"; cases "tl (pcSearch c)"; cases isMobile)
     (auto simp: calculatePoints_def deficit_def at_index_def numeral_2_eq_2)

lemma sum_list_deficit_nonneg:
  "\<forall>k \<in> set xs. pointProgress k \<le> pointProgressMax k \<Longrightarrow> 0 \<le> sum_list (map deficit xs)"
  by (induction xs) (auto simp: deficit_def)

text \<open>
  Claim C1, as amended. \<open>calculatePoints\<close> does not clamp: it returns the plain
  difference \<open>pointProgressMax - pointProgress\<close> of the first mobile counter when the
  device class is mobile and a mobile counter exists, and otherwise (desktop, or mobile
  without a mobile counter) the sum of the plain differences of the first two desktop
  counters, a missing counter contributing 0. The result is non-negative whenever every
  counter has \<open>pointProgress \<le> pointProgressMax\<close>.
\<close>

theorem calculatePoints_deficit:
  "calculatePoints isMobile c =
     (if isMobile \<and> mobileSearch c \<noteq> [] then deficit (hd (mobileSearch c))
      else sum_list (map deficit (take 2 (pcSearch c))))
   \<and> ((\<forall>k \<in> set (mobileSearch c) \<union> set (pcSearch c). pointProgress k \<le> pointProgressMax k)
        \<longrightarrow> 0 \<le> calculatePoints isMobile c)"
proof (intro conjI impI)
  show "calculatePoints isMobile c =
     (if isMobile \<and> mobileSearch c \<noteq> [] then deficit (hd (mobileSearch c))
      else sum_list (map deficit (take 2 (pcSearch c))))"
    by (rule calculatePoints_cases)
next
  assume ok: "\<forall>k \<in> set (mobileSearch c) \<union> set (pcSearch c). pointProgress k \<le> pointProgressMax k"
  have pc: "0 \<le> sum_list (map deficit (take 2 (pcSearch c)))"
  proof (rule sum_list_deficit_nonneg)
    show "\<forall>k\<in>set (take 2 (pcSearch c)). pointProgress k \<le> pointProgressMax k"
      using ok by (auto dest: in_set_takeD)
  qed
  have mob: "mobileSearch c \<noteq> [] \<Longrightarrow> 0 \<le> deficit (hd (mobileSearch c))"
    using ok by (cases "mobileSearch c") (auto simp: deficit_def)
  show "0 \<le> calculatePoints isMobile c"
    using pc mob by (simp add: calculatePoints_cases)
qed

text \<open>The amended claim C1 at a mobile counter with 10 of 30 points.\<close>

theorem calculatePoints_deficit_witness:
  "calculatePoints True \<lparr>pcSearch = [], mobileSearch = [\<lparr>pointProgress = 10, pointProgressMax = 30\<rparr>],
        shopAndEarn = [], activityAndQuiz = [], dailyPoint = []\<rparr> = 20
   \<and> 0 \<le> calculatePoints True \<lparr>pcSearch = [], mobileSearch = [\<lparr>pointProgress = 10, pointProgressMax = 30\<rparr>],
        shopAndEarn = [], activityAndQuiz = [], dailyPoint = []\<rparr>"
  using calculatePoints_deficit [of True "\<lparr>pcSearch = [], mobileSearch = [\<lparr>pointProgress = 10, pointProgressMax = 30\<rparr>],
        shopAndEarn = [], activityAndQuiz = [], dailyPoint = []\<rparr>"]
  by (simp add: deficit_def)

text \<open>
  Claim C1 as stated fails: a mobile counter that reports 40 points earned out of a
  maximum of 30 yields the deficit -10.
\<close>

theorem calculatePoints_negative_counterexample:
  "calculatePoints True \<lparr>pcSearch = [], mobileSearch = [\<lparr>pointProgress = 40, pointProgressMax = 30\<rparr>],
        shopAndEarn = [], activityAndQuiz = [], dailyPoint = []\<rparr> = - 10"
  by (simp add: calculatePoints_def at_index_def)

section \<open>Properties of the pacing controller\<close>

lemma rne_cases: "rne x = \<lfloor>x\<rfloor> \<or> rne x = \<lfloor>x\<rfloor> + 1"
  by (simp add: rne_def Let_def)

lemma rne_of_int [simp]: "rne (of_int n) = n"
  by (simp add: rne_def)

lemma rne_unfold:
  obtains n where "of_int n \<le> x" "x < of_int n + 1" "n = \<lfloor>x\<rfloor>"
    "rne x = (if x - of_int n < 1 / 2 then n else if 1 / 2 < x - of_int n then n + 1
              else if even n then n else n + 1)"
proof -
  have "of_int \<lfloor>x\<rfloor> \<le> x" "x < of_int \<lfloor>x\<rfloor> + 1" by linarith+
  moreover have "rne x = (if x - of_int \<lfloor>x\<rfloor> < 1 / 2 then \<lfloor>x\<rfloor>
      else if 1 / 2 < x - of_int \<lfloor>x\<rfloor> then \<lfloor>x\<rfloor> + 1
      else if even \<lfloor>x\<rfloor> then \<lfloor>x\<rfloor> else \<lfloor>x\<rfloor> + 1)"
    by (simp add: rne_def Let_def)
  ultimately show ?thesis using that by blast
qed

lemma rne_lower: "x - 1 / 2 \<le> of_int (rne x)"
proof -
  obtain n where n: "of_int n \<le> x" "x < of_int n + 1"
    and r: "rne x = (if x - of_int n < 1 / 2 then n else if 1 / 2 < x - of_int n then n + 1
              else if even n then n else n + 1)"
    by (rule rne_unfold)
  show ?thesis unfolding r using n by (auto split: if_splits)
qed

lemma rne_upper: "of_int (rne x) \<le> x + 1 / 2"
proof -
  obtain n where n: "of_int n \<le> x" "x < of_int n + 1"
    and r: "rne x = (if x - of_int n < 1 / 2 then n else if 1 / 2 < x - of_int n then n + 1
              else if even n then n else n + 1)"
    by (rule rne_unfold)
  show ?thesis unfolding r using n by (auto split: if_splits)
qed

lemma rne_err: "\<bar>of_int (rne x) - x\<bar> \<le> 1 / 2"
  using rne_lower [of x] rne_upper [of x] by linarith

lemma rne_mono: "x \<le> y \<Longrightarrow> rne x \<le> rne y"
proof -
  assume xy: "x \<le> y"
  then have f: "\<lfloor>x\<rfloor> \<le> \<lfloor>y\<rfloor>" by (rule floor_mono)
  show ?thesis
  proof (cases "\<lfloor>x\<rfloor> = \<lfloor>y\<rfloor>")
    case True
    with xy show ?thesis by (auto simp: rne_def Let_def)
  next
    case False
    with f have "\<lfloor>x\<rfloor> + 1 \<le> \<lfloor>y\<rfloor>" by simp
    moreover have "rne x \<le> \<lfloor>x\<rfloor> + 1" using rne_cases [of x] by auto
    moreover have "\<lfloor>y\<rfloor> \<le> rne y" using rne_cases [of y] by auto
    ultimately show ?thesis by linarith
  qed
qed

lemma rne_ge: "of_int n \<le> x \<Longrightarrow> n \<le> rne x"
  using rne_mono [of "of_int n" x] by simp

lemma rne_le: "x \<le> of_int n \<Longrightarrow> rne x \<le> n"
  using rne_mono [of x "of_int n"] by simp

lemma expo_bounds:
  assumes "0 < x"
  shows "2 powi expo x \<le> x" and "x < 2 powi (expo x + 1)"
proof -
  obtain p q where pq: "quotient_of x = (p, q)" by (cases "quotient_of x")
  then have q: "0 < q" by (rule quotient_of_denom_pos)
  have x: "x = of_int p / of_int q" using pq by (rule quotient_of_div)
  with assms q have p: "0 < p" by (simp add: zero_less_divide_iff)
  let ?d = "bitlen p - bitlen q"
  have bp: "bitlen p \<ge> 1" "bitlen q \<ge> 1" using p q by (simp_all add: bitlen_alt_def)
  have pb: "(2::rat) powi (bitlen p - 1) \<le> of_int p" "(of_int p :: rat) < 2 powi bitlen p"
  proof -
    have "2 ^ nat (bitlen p - 1) \<le> p" "p < 2 ^ nat (bitlen p)" using bitlen_bounds [OF p] by auto
    then have "(of_int (2 ^ nat (bitlen p - 1)) :: rat) \<le> of_int p" "(of_int p :: rat) < of_int (2 ^ nat (bitlen p))"
      by (simp_all only: of_int_le_iff of_int_less_iff)
    then show "(2::rat) powi (bitlen p - 1) \<le> of_int p" "(of_int p :: rat) < 2 powi bitlen p"
      using bp by (simp_all add: power_int_def)
  qed
  have qb: "(2::rat) powi (bitlen q - 1) \<le> of_int q" "(of_int q :: rat) < 2 powi bitlen q"
  proof -
    have "2 ^ nat (bitlen q - 1) \<le> q" "q < 2 ^ nat (bitlen q)" using bitlen_bounds [OF q] by auto
    then have "(of_int (2 ^ nat (bitlen q - 1)) :: rat) \<le> of_int q" "(of_int q :: rat) < of_int (2 ^ nat (bitlen q))"
      by (simp_all only: of_int_le_iff of_int_less_iff)
    then show "(2::rat) powi (bitlen q - 1) \<le> of_int q" "(of_int q :: rat) < 2 powi bitlen q"
      using bp by (simp_all add: power_int_def)
  qed
  have qpos: "(0::rat) < of_int q" using q by simp
  have up: "x < 2 powi (?d + 1)"
  proof -
    have "of_int p < (2::rat) powi bitlen p" by (rule pb)
    also have "\<dots> = 2 powi (?d + 1) * 2 powi (bitlen q - 1)"
      by (simp add: power_int_add [symmetric])
    also have "\<dots> \<le> 2 powi (?d + 1) * of_int q"
      using qb(1) by (intro mult_left_mono) simp_all
    finally show ?thesis using qpos by (simp add: x pos_divide_less_eq)
  qed
  have lo: "2 powi (?d - 1) < x"
  proof -
    have "2 powi (?d - 1) * of_int q < 2 powi (?d - 1) * (2::rat) powi bitlen q"
      using qb(2) by (intro mult_strict_left_mono) simp_all
    also have "\<dots> = 2 powi (bitlen p - 1)"
      by (simp add: power_int_add [symmetric])
    also have "\<dots> \<le> of_int p" by (rule pb)
    finally show ?thesis using qpos by (simp add: x pos_less_divide_eq)
  qed
  have e: "expo x = (if 2 powi ?d \<le> x then ?d else ?d - 1)"
    using assms pq by (simp add: expo_def Let_def)
  show "2 powi expo x \<le> x" using lo by (simp add: e)
  show "x < 2 powi (expo x + 1)" using up by (auto simp: e)
qed

lemma power_int_two_mono: "a \<le> b \<Longrightarrow> (2::rat) powi a \<le> 2 powi b"
  by (rule power_int_increasing) simp_all

lemma power_int_two_less: "(2::rat) powi a < 2 powi b \<Longrightarrow> a < b"
  using power_int_two_mono [of b a] by (cases "a < b") auto

lemma expo_unique:
  assumes "2 powi e \<le> x" "x < 2 powi (e + 1)"
  shows "expo x = e"
proof -
  have "(0::rat) < 2 powi e" by simp
  with assms have pos: "0 < x" by linarith
  have "(2::rat) powi expo x < 2 powi (e + 1)"
    using expo_bounds(1) [OF pos] assms(2) by linarith
  then have a: "expo x < e + 1" by (rule power_int_two_less)
  have "(2::rat) powi e < 2 powi (expo x + 1)"
    using expo_bounds(2) [OF pos] assms(1) by linarith
  then have "e < expo x + 1" by (rule power_int_two_less)
  with a show ?thesis by simp
qed

lemma expo_mono: "0 < x \<Longrightarrow> x \<le> y \<Longrightarrow> expo x \<le> expo y"
proof -
  assume x: "0 < x" and xy: "x \<le> y"
  then have y: "0 < y" by simp
  have "(2::rat) powi expo x < 2 powi (expo y + 1)"
    using expo_bounds(1) [OF x] expo_bounds(2) [OF y] xy by linarith
  then have "expo x < expo y + 1" by (rule power_int_two_less)
  then show ?thesis by simp
qed

lemma ulp_bexp: "ulp x = 2 powi (bexp x - 52)"
  by (simp add: ulp_def bexp_def)

lemma ulp_pos [simp]: "0 < ulp x"
  by (simp add: ulp_def)

lemma ulp_nonneg [simp]: "0 \<le> ulp x"
  by (simp add: ulp_def)

lemma ulp_neq_0 [simp]: "ulp x \<noteq> 0"
  by (simp add: ulp_def)

lemma rne_0 [simp]: "rne 0 = 0"
  using rne_of_int [of 0] by simp

lemma two53_ulp: "9007199254740992 * 2 powi (e - 52) = (2::rat) powi (e + 1)"
proof -
  have "(2::rat) powi (e + 1) = 2 powi 53 * 2 powi (e - 52)"
    using power_int_add [of "2::rat" 53 "e - 52"] by (simp add: add.commute)
  also have "(2::rat) powi 53 = 9007199254740992" by (simp add: power_int_def)
  finally show ?thesis by simp
qed

lemma two52_ulp: "4503599627370496 * 2 powi (e - 52) = (2::rat) powi e"
proof -
  have "(2::rat) powi e = 2 powi 52 * 2 powi (e - 52)"
    using power_int_add [of "2::rat" 52 "e - 52"] by simp
  also have "(2::rat) powi 52 = 4503599627370496" by (simp add: power_int_def)
  finally show ?thesis by simp
qed

lemma fl_0 [simp]: "fl 0 = 0"
  by (simp add: fl_def)

lemma fl_nonneg: "0 \<le> x \<Longrightarrow> 0 \<le> fl x"
proof -
  assume "0 \<le> x"
  then have "of_int 0 \<le> x / ulp x" by simp
  then have "0 \<le> rne (x / ulp x)" by (rule rne_ge)
  then show ?thesis by (simp add: fl_def)
qed

lemma fl_binade:
  assumes "2 powi e \<le> x" "x < 2 powi (e + 1)" "- 1022 \<le> e"
  shows "fl x = of_int (rne (x / 2 powi (e - 52))) * 2 powi (e - 52)"
proof -
  have "expo x = e" using assms(1,2) by (rule expo_unique)
  with assms(3) show ?thesis by (simp add: fl_def ulp_def)
qed

lemma bexp_upper: "0 < x \<Longrightarrow> x < 2 powi (bexp x + 1)"
proof -
  assume x: "0 < x"
  have "x < 2 powi (expo x + 1)" by (rule expo_bounds(2) [OF x])
  also have "\<dots> \<le> 2 powi (bexp x + 1)"
    by (rule power_int_two_mono) (simp add: bexp_def)
  finally show ?thesis .
qed

lemma fl_upper: "0 < x \<Longrightarrow> fl x \<le> 2 powi (bexp x + 1)"
proof -
  assume x: "0 < x"
  have "x / ulp x < 2 powi (bexp x + 1) / ulp x"
    using bexp_upper [OF x] by (simp add: divide_strict_right_mono)
  also have "\<dots> = 2 powi 53"
    by (simp add: ulp_bexp power_int_diff [symmetric])
  also have "\<dots> = of_int (2 ^ 53)" by (simp add: power_int_def)
  finally have "rne (x / ulp x) \<le> 2 ^ 53" by (intro rne_le) simp
  then have "(of_int (rne (x / ulp x)) :: rat) \<le> of_int (2 ^ 53)" by (simp only: of_int_le_iff)
  then have "fl x \<le> of_int (2 ^ 53) * ulp x"
    unfolding fl_def by (intro mult_right_mono) simp_all
  also have "\<dots> = 2 powi (bexp x + 1)"
    by (simp add: ulp_bexp two53_ulp)
  finally show ?thesis .
qed

lemma fl_lower: "0 < x \<Longrightarrow> - 1022 \<le> expo x \<Longrightarrow> 2 powi (bexp x) \<le> fl x"
proof -
  assume x: "0 < x" and n: "- 1022 \<le> expo x"
  then have b: "bexp x = expo x" by (simp add: bexp_def)
  have "2 powi (bexp x) / ulp x \<le> x / ulp x"
    using expo_bounds(1) [OF x] b by (intro divide_right_mono) simp_all
  moreover have "2 powi (bexp x) / ulp x = 2 powi 52"
    by (simp add: ulp_bexp power_int_diff [symmetric])
  moreover have "(2::rat) powi 52 = of_int (2 ^ 52)" by (simp add: power_int_def)
  ultimately have "2 ^ 52 \<le> rne (x / ulp x)" by (intro rne_ge) simp
  then have "(of_int (2 ^ 52) :: rat) \<le> of_int (rne (x / ulp x))" by (simp only: of_int_le_iff)
  then have "of_int (2 ^ 52) * ulp x \<le> fl x"
    unfolding fl_def by (intro mult_right_mono) simp_all
  moreover have "of_int (2 ^ 52) * ulp x = 2 powi (bexp x)"
    by (simp add: ulp_bexp two52_ulp)
  ultimately show ?thesis by simp
qed

lemma fl_mono:
  assumes "0 \<le> x" "x \<le> y"
  shows "fl x \<le> fl y"
proof (cases "x = 0")
  case True
  with assms fl_nonneg [of y] show ?thesis by simp
next
  case False
  with assms have x: "0 < x" and y: "0 < y" by simp_all
  have le: "bexp x \<le> bexp y"
    using expo_mono [OF x assms(2)] by (simp add: bexp_def)
  show ?thesis
  proof (cases "bexp x = bexp y")
    case True
    then have u: "ulp x = ulp y" by (simp add: ulp_bexp)
    have "x / ulp y \<le> y / ulp y" using assms(2) by (intro divide_right_mono) simp_all
    then have "rne (x / ulp y) \<le> rne (y / ulp y)" by (rule rne_mono)
    then have "(of_int (rne (x / ulp y)) :: rat) \<le> of_int (rne (y / ulp y))"
      by (simp only: of_int_le_iff)
    then show ?thesis unfolding fl_def u by (intro mult_right_mono) simp_all
  next
    case False
    with le have lt: "bexp x + 1 \<le> bexp y" by simp
    then have "- 1022 < bexp y" by (simp add: bexp_def)
    then have n: "- 1022 \<le> expo y" by (simp add: bexp_def)
    have "fl x \<le> 2 powi (bexp x + 1)" by (rule fl_upper [OF x])
    also have "\<dots> \<le> 2 powi (bexp y)" using lt by (rule power_int_two_mono)
    also have "\<dots> \<le> fl y" by (rule fl_lower [OF y n])
    finally show ?thesis .
  qed
qed

lemma fl_exact:
  assumes x: "x = of_int m * 2 powi j" and m: "0 \<le> m" "m < 2 ^ 53" and j: "- 1074 \<le> j"
  shows "fl x = x"
proof (cases "m = 0")
  case True
  with x show ?thesis by simp
next
  case False
  with m have mp: "0 < m" by simp
  then have xp: "0 < x" by (simp add: x)
  have "(of_int m :: rat) < of_int (2 ^ 53)" using m(2) by (simp only: of_int_less_iff)
  then have "(of_int m :: rat) < 2 powi 53" by (simp add: power_int_def)
  then have "x < 2 powi 53 * 2 powi j" unfolding x by (intro mult_strict_right_mono) simp_all
  then have "x < 2 powi (53 + j)" by (simp add: power_int_add)
  then have "(2::rat) powi expo x < 2 powi (53 + j)"
    using expo_bounds(1) [OF xp] by linarith
  then have "expo x < 53 + j" by (rule power_int_two_less)
  with j have k: "0 \<le> j - (bexp x - 52)" by (simp add: bexp_def)
  define k where "k = nat (j - (bexp x - 52))"
  have jk: "j = (bexp x - 52) + int k" using k by (simp add: k_def)
  define u where "u = ulp x"
  have u0: "u \<noteq> 0" by (simp add: u_def)
  have "2 powi j = 2 powi (int k) * (2::rat) powi (bexp x - 52)"
    by (subst jk) (simp add: power_int_add mult.commute)
  then have xe: "x = of_int m * 2 powi (int k) * u"
    by (simp add: x u_def ulp_bexp)
  have "x / u = of_int m * 2 powi (int k)"
    using u0 by (subst xe) simp
  then have "x / ulp x = of_int m * 2 powi (int k)" by (simp add: u_def)
  also have "\<dots> = of_int (m * 2 ^ k)" by (simp add: power_int_def)
  finally have "rne (x / ulp x) = m * 2 ^ k" by (simp only: rne_of_int)
  then have "fl x = of_int (m * 2 ^ k) * ulp x" by (simp add: fl_def)
  also have "\<dots> = of_int m * (2 powi (int k) * 2 powi (bexp x - 52))"
    by (simp add: ulp_bexp power_int_def)
  also have "\<dots> = of_int m * 2 powi j"
    by (subst jk) (simp add: power_int_add mult.commute)
  finally show ?thesis by (simp add: x)
qed

lemma fl_of_int: "0 \<le> n \<Longrightarrow> n < 2 ^ 53 \<Longrightarrow> fl (of_int n) = of_int n"
  by (rule fl_exact [where m = n and j = 0]) simp_all

lemma fl_pow2: "- 1074 \<le> j \<Longrightarrow> fl (2 powi j) = 2 powi j"
  by (rule fl_exact [where m = 1 and j = j]) simp_all

lemma fl_idem: "0 \<le> x \<Longrightarrow> fl (fl x) = fl x"
proof (cases "x = 0")
  case True
  then show ?thesis by simp
next
  case False
  assume "0 \<le> x"
  with False have x: "0 < x" by simp
  define n where "n = rne (x / ulp x)"
  have f: "fl x = of_int n * 2 powi (bexp x - 52)" by (simp add: fl_def n_def ulp_bexp)
  have n0: "0 \<le> n" unfolding n_def using x by (intro rne_ge) simp
  have "fl x \<le> 2 powi (bexp x + 1)" by (rule fl_upper [OF x])
  also have "\<dots> = of_int (2 ^ 53) * 2 powi (bexp x - 52)"
    by (simp add: two53_ulp)
  finally have "(of_int n :: rat) \<le> of_int (2 ^ 53)" unfolding f by simp
  then have n53: "n \<le> 2 ^ 53" by (simp only: of_int_le_iff)
  have j: "- 1074 \<le> bexp x - 52" by (simp add: bexp_def)
  show ?thesis
  proof (cases "n = 2 ^ 53")
    case True
    then have "fl x = 2 powi (bexp x + 1)" by (simp add: f two53_ulp)
    moreover have "fl (2 powi (bexp x + 1)) = 2 powi (bexp x + 1)"
      by (rule fl_pow2) (simp add: bexp_def)
    ultimately show ?thesis by simp
  next
    case False
    with n53 have "n < 2 ^ 53" by simp
    from fl_exact [OF f n0 this j] show ?thesis .
  qed
qed

lemma fl_err:
  assumes "0 \<le> x" "x < 2 powi k" "- 1021 \<le> k"
  shows "\<bar>fl x - x\<bar> \<le> 2 powi (k - 54)"
proof (cases "x = 0")
  case True
  then show ?thesis by simp
next
  case False
  with assms have x: "0 < x" by simp
  have "(2::rat) powi expo x < 2 powi k" using expo_bounds(1) [OF x] assms(2) by linarith
  then have "expo x < k" by (rule power_int_two_less)
  with assms(3) have "bexp x - 52 \<le> k - 53" by (simp add: bexp_def)
  then have u: "ulp x \<le> 2 powi (k - 53)" unfolding ulp_bexp by (rule power_int_two_mono)
  have "fl x - x = (of_int (rne (x / ulp x)) - x / ulp x) * ulp x"
    by (simp add: fl_def algebra_simps)
  then have "\<bar>fl x - x\<bar> = \<bar>of_int (rne (x / ulp x)) - x / ulp x\<bar> * ulp x"
    by (simp add: abs_mult)
  also have "\<dots> \<le> 1 / 2 * ulp x"
    using rne_err [of "x / ulp x"] by (intro mult_right_mono) simp_all
  also have "\<dots> \<le> 1 / 2 * 2 powi (k - 53)" using u by simp
  also have "\<dots> = 2 powi (k - 54)"
    by (simp add: power_int_diff)
  finally show ?thesis .
qed

lemma fl_fifth: "fl (1 / 5) = 3602879701896397 / 18014398509481984"
  by code_simp

lemma fl_tenth: "fl (1 / 10) = 3602879701896397 / 36028797018963968"
  by code_simp

lemma fl_half: "fl (1 / 2) = 1 / 2"
  by code_simp

lemma fl_numeral: "numeral n < (2::int) ^ 53 \<Longrightarrow> fl (numeral n) = numeral n"
  using fl_of_int [of "numeral n"] by simp

lemma fl_1 [simp]: "fl 1 = 1"
  using fl_of_int [of 1] by simp

lemma fl_2 [simp]: "fl 2 = 2"
  by (rule fl_numeral) simp

lemma fl_3 [simp]: "fl 3 = 3"
  by (rule fl_numeral) simp

lemma double_below_1:
  assumes "fl r = r" "0 \<le> r" "r < 1"
  shows "r \<le> 1 - 2 powi (- 53)"
proof (cases "r < 1 / 2")
  case True
  have "(2::rat) powi (- 53) \<le> 2 powi (- 1)" by (rule power_int_two_mono) simp
  then have "(2::rat) powi (- 53) \<le> 1 / 2" by (simp add: power_int_minus)
  with True show ?thesis by linarith
next
  case False
  then have lo: "2 powi (- 1) \<le> r" by (simp add: power_int_minus)
  have hi: "r < 2 powi (- 1 + 1)" using assms(3) by simp
  define n where "n = rne (r / 2 powi (- 1 - 52))"
  have "fl r = of_int n * 2 powi (- 1 - 52)"
    unfolding n_def by (rule fl_binade [OF lo hi]) simp
  with assms(1) have r: "r = of_int n * 2 powi (- 53)" by simp
  have p: "(2::rat) powi (- 53) * 2 ^ 53 = 1" by (simp add: power_int_minus)
  have "of_int n * (2 powi (- 53) * 2 ^ 53) < (1::rat) * 2 ^ 53"
    using assms(3) unfolding r by (simp only: mult.assoc [symmetric] mult_strict_right_mono zero_less_power zero_less_numeral)
  then have "(of_int n :: rat) < of_int (2 ^ 53)" unfolding p by simp
  then have "n < 2 ^ 53" by (simp only: of_int_less_iff)
  then have "n \<le> 2 ^ 53 - 1" by simp
  then have "(of_int n :: rat) \<le> of_int (2 ^ 53 - 1)" by (simp only: of_int_le_iff)
  then have "r \<le> of_int (2 ^ 53 - 1) * 2 powi (- 53)"
    unfolding r by (intro mult_right_mono) simp_all
  also have "\<dots> = 1 - 2 powi (- 53)" by (simp add: power_int_minus)
  finally show ?thesis .
qed

lemma double_below_2:
  assumes "fl a = a" "1 \<le> a" "a < 2"
  shows "a = 2 - 2 powi (- 52) \<or> a \<le> 2 - 2 powi (- 51)"
proof -
  have lo: "2 powi 0 \<le> a" using assms(2) by simp
  have hi: "a < 2 powi (0 + 1)" using assms(3) by simp
  define n where "n = rne (a / 2 powi (0 - 52))"
  have "fl a = of_int n * 2 powi (0 - 52)"
    unfolding n_def by (rule fl_binade [OF lo hi]) simp
  with assms(1) have r: "a = of_int n * 2 powi (- 52)" by simp
  have p: "(2::rat) powi (- 52) * 2 ^ 52 = 1" by (simp add: power_int_minus)
  have "of_int n * (2 powi (- 52) * 2 ^ 52) < (2::rat) * 2 ^ 52"
    using assms(3) unfolding r by (simp only: mult.assoc [symmetric] mult_strict_right_mono zero_less_power zero_less_numeral)
  then have "(of_int n :: rat) < of_int (2 ^ 53)" unfolding p by simp
  then have "n < 2 ^ 53" by (simp only: of_int_less_iff)
  then consider "n = 2 ^ 53 - 1" | "n \<le> 2 ^ 53 - 2" by fastforce
  then show ?thesis
  proof cases
    case 1
    then show ?thesis unfolding r by (simp add: power_int_minus)
  next
    case 2
    then have "(of_int n :: rat) \<le> of_int (2 ^ 53 - 2)" by (simp only: of_int_le_iff)
    then have "a \<le> of_int (2 ^ 53 - 2) * 2 powi (- 52)"
      unfolding r by (intro mult_right_mono) simp_all
    also have "\<dots> = 2 - 2 powi (- 51)" by (simp add: power_int_minus)
    finally show ?thesis by simp
  qed
qed

lemma fl_halves:
  assumes "n < 2 ^ 53" "0 \<le> n"
  shows "fl (of_int n / 2) = of_int n / 2"
proof -
  have "of_int n / 2 = (of_int n :: rat) * 2 powi (- 1)" by (simp add: power_int_minus)
  then show ?thesis using fl_exact [of "of_int n / 2" n "- 1"] assms by simp
qed

lemma failureMultiplier_exact:
  "failureMultiplier s = min (1 + 1 / 2 * of_nat (consecutiveFailures s)) 3"
proof (cases "consecutiveFailures s < 4")
  case True
  define n where "n = consecutiveFailures s"
  define h where "h = (of_nat n :: rat) * (1 / 2)"
  have n: "n < 4" using True by (simp add: n_def)
  have h: "h = of_int (int n) / 2" by (simp add: h_def)
  have a: "fl h = h"
    unfolding h by (rule fl_halves) (use n in simp_all)
  have c: "1 + h = of_int (int n + 2) / 2" by (simp add: h_def)
  have b: "fl (1 + h) = 1 + h"
    unfolding c by (rule fl_halves) (use n in simp_all)
  have "failureMultiplier s = min (fl (1 + fl h)) 3"
    by (simp add: failureMultiplier_def fl_half h_def n_def)
  also have "\<dots> = min (1 + h) 3" by (simp only: a b)
  finally show ?thesis by (simp add: h_def n_def)
next
  case False
  define x where "x = (of_nat (consecutiveFailures s) :: rat) * (1 / 2)"
  have x: "2 \<le> x" using False by (simp add: x_def)
  have "fl 2 \<le> fl x" by (rule fl_mono) (use x in simp_all)
  then have "3 \<le> 1 + fl x" by simp
  then have "fl 3 \<le> fl (1 + fl x)" by (intro fl_mono) simp_all
  then have "failureMultiplier s = 3"
    by (simp add: failureMultiplier_def fl_half x_def)
  moreover have "min (1 + 1 / 2 * of_nat (consecutiveFailures s)) (3::rat) = 3"
    using x by (simp add: x_def)
  ultimately show ?thesis by simp
qed

lemma failureMultiplier_half:
  "\<exists>q. failureMultiplier s = of_int q / 2 \<and> 2 \<le> q \<and> q \<le> 6"
proof -
  define n where "n = int (consecutiveFailures s)"
  have "failureMultiplier s = of_int (min (2 + n) 6) / 2"
    unfolding failureMultiplier_exact n_def by (simp add: min_def)
  moreover have "2 \<le> min (2 + n) 6" "min (2 + n) 6 \<le> 6" by (simp_all add: n_def)
  ultimately show ?thesis by blast
qed

lemma fl_min_2: "0 \<le> x \<Longrightarrow> fl (min 2 (fl x)) = min 2 (fl x)"
  by (simp add: min_def fl_idem)

lemma fl_max_1: "0 \<le> x \<Longrightarrow> fl (max 1 (fl x)) = max 1 (fl x)"
  by (simp add: max_def fl_idem)

lemma paced_handleSearchFailure: "paced s \<Longrightarrow> paced (handleSearchFailure s)"
proof -
  assume p: "paced s"
  define x where "x = adaptiveDelayMultiplier s + fl (1 / 5)"
  have x: "1 \<le> x" using p by (simp add: x_def paced_def fl_fifth)
  then have "fl 1 \<le> fl x" by (intro fl_mono) simp_all
  then have "1 \<le> min 2 (fl x)" by simp
  moreover have "fl (min 2 (fl x)) = min 2 (fl x)" by (rule fl_min_2) (use x in simp)
  ultimately show ?thesis by (simp add: paced_def handleSearchFailure_def x_def)
qed

lemma paced_handleSearchSuccess: "paced s \<Longrightarrow> paced (handleSearchSuccess s)"
proof -
  assume p: "paced s"
  define x where "x = adaptiveDelayMultiplier s - fl (1 / 10)"
  have x: "0 \<le> x" "x \<le> 2" using p by (simp_all add: x_def paced_def fl_tenth)
  then have "fl x \<le> fl 2" by (intro fl_mono)
  then have "max 1 (fl x) \<le> 2" by simp
  moreover have "fl (max 1 (fl x)) = max 1 (fl x)" by (rule fl_max_1) (rule x)
  ultimately show ?thesis using p by (simp add: paced_def handleSearchSuccess_def x_def Let_def)
qed

lemma paced_replay: "paced s \<Longrightarrow> paced (replay s h)"
  by (induction h arbitrary: s) (simp_all add: paced_handleSearchFailure paced_handleSearchSuccess)

lemma paced_initial: "paced initial_Search"
  by (simp add: paced_def initial_Search_def)

lemma handleSearchFailure_near:
  assumes "paced s"
  shows "\<bar>adaptiveDelayMultiplier (handleSearchFailure s) - min 2 (adaptiveDelayMultiplier s + 1 / 5)\<bar>
         \<le> 2 powi (- 51)"
proof -
  define a where "a = adaptiveDelayMultiplier s"
  define x where "x = a + fl (1 / 5)"
  have a: "1 \<le> a" "a \<le> 2" using assms by (simp_all add: paced_def a_def)
  have "0 \<le> x" "x < 2 powi 2" using a by (simp_all add: x_def fl_fifth)
  then have "\<bar>fl x - x\<bar> \<le> 2 powi (2 - 54)" by (rule fl_err) simp
  then have e: "\<bar>fl x - x\<bar> \<le> 1 / 2 ^ 52" by (simp add: power_int_minus divide_simps)
  have d: "\<bar>x - (a + 1 / 5)\<bar> \<le> 1 / 2 ^ 56" by (simp add: x_def fl_fifth)
  have "\<bar>min 2 (fl x) - min 2 (a + 1 / 5)\<bar> \<le> \<bar>fl x - (a + 1 / 5)\<bar>" by (simp add: min_def)
  also have "\<dots> \<le> 1 / 2 ^ 52 + 1 / 2 ^ 56" using e d by linarith
  also have "\<dots> \<le> 2 powi (- 51)" by (simp add: power_int_minus)
  finally show ?thesis by (simp add: handleSearchFailure_def a_def x_def)
qed

lemma handleSearchSuccess_near:
  assumes "paced s"
  shows "\<bar>adaptiveDelayMultiplier (handleSearchSuccess s) - max 1 (adaptiveDelayMultiplier s - 1 / 10)\<bar>
         \<le> 2 powi (- 51)"
proof (cases "1 < adaptiveDelayMultiplier s")
  case False
  with assms have "adaptiveDelayMultiplier s = 1" by (simp add: paced_def)
  then show ?thesis by (simp add: handleSearchSuccess_def Let_def)
next
  case True
  define a where "a = adaptiveDelayMultiplier s"
  define x where "x = a - fl (1 / 10)"
  have a: "1 \<le> a" "a \<le> 2" using assms by (simp_all add: paced_def a_def)
  have "0 \<le> x" "x < 2 powi 2" using a by (simp_all add: x_def fl_tenth)
  then have "\<bar>fl x - x\<bar> \<le> 2 powi (2 - 54)" by (rule fl_err) simp
  then have e: "\<bar>fl x - x\<bar> \<le> 1 / 2 ^ 52" by (simp add: power_int_minus divide_simps)
  have d: "\<bar>x - (a - 1 / 10)\<bar> \<le> 1 / 2 ^ 56" by (simp add: x_def fl_tenth)
  have "\<bar>max 1 (fl x) - max 1 (a - 1 / 10)\<bar> \<le> \<bar>fl x - (a - 1 / 10)\<bar>" by (simp add: max_def)
  also have "\<dots> \<le> 1 / 2 ^ 52 + 1 / 2 ^ 56" using e d by linarith
  also have "\<dots> \<le> 2 powi (- 51)" by (simp add: power_int_minus)
  finally show ?thesis using True by (simp add: handleSearchSuccess_def a_def x_def Let_def)
qed

lemma spread_error:
  fixes B C a :: rat
  assumes a: "1 \<le> a" "a \<le> 2"
    and B: "0 \<le> B" "B \<le> C" "2 * B < 2 powi 19" "2 * C < 2 powi 20"
  shows "0 \<le> fl (C * a) - fl (B * a)"
    and "fl (C * a) - fl (B * a) \<le> (C - B) * a + 3 / 2 ^ 35"
proof -
  have Ba: "0 \<le> B * a" using a B by simp
  have BC: "B * a \<le> C * a" using a B by (intro mult_right_mono) simp_all
  have "B * a \<le> B * 2" using a B by (intro mult_left_mono) simp_all
  with B have Bk: "B * a < 2 powi 19" by (simp add: mult.commute)
  have "C * a \<le> C * 2" using a B by (intro mult_left_mono) simp_all
  with B have Ck: "C * a < 2 powi 20" by (simp add: mult.commute)
  have "fl (B * a) \<le> fl (C * a)" using Ba BC by (rule fl_mono)
  then show "0 \<le> fl (C * a) - fl (B * a)" by simp
  have "\<bar>fl (B * a) - B * a\<bar> \<le> 2 powi (19 - 54)"
    using Ba Bk by (rule fl_err) simp
  then have e1: "\<bar>fl (B * a) - B * a\<bar> \<le> 1 / 2 ^ 35" by (simp add: power_int_minus divide_simps)
  have "\<bar>fl (C * a) - C * a\<bar> \<le> 2 powi (20 - 54)"
    using Ba BC Ck by (intro fl_err) simp_all
  then have e2: "\<bar>fl (C * a) - C * a\<bar> \<le> 2 / 2 ^ 35" by (simp add: power_int_minus divide_simps)
  have "fl (C * a) - fl (B * a) \<le> C * a - B * a + 3 / 2 ^ 35"
    using e1 e2 by linarith
  then show "fl (C * a) - fl (B * a) \<le> (C - B) * a + 3 / 2 ^ 35"
    by (simp add: algebra_simps)
qed

lemma spread_small:
  fixes B C a W :: rat
  assumes a: "1 \<le> a" "a \<le> 2"
    and B: "0 \<le> B" "B \<le> C" "2 * B < 2 powi 19" "2 * C < 2 powi 20"
    and W: "2 * (C - B) + 1 \<le> W" "fl W = W"
  shows "fl (fl (C * a) - fl (B * a)) \<le> W"
proof -
  have "(C - B) * a \<le> (C - B) * 2" using a B by (intro mult_left_mono) simp_all
  then have "fl (C * a) - fl (B * a) \<le> 2 * (C - B) + 3 / 2 ^ 35"
    using spread_error(2) [OF a B] by linarith
  also have "\<dots> \<le> W" using W(1) by simp
  finally have "fl (fl (C * a) - fl (B * a)) \<le> fl W"
    using spread_error(1) [OF a B] by (intro fl_mono)
  with W(2) show ?thesis by simp
qed

lemma spread_top:
  fixes B C a W :: rat
  assumes a: "1 \<le> a" "a \<le> 2 - 2 powi (- 51)"
    and B: "0 \<le> B" "B \<le> C" "2 * B < 2 powi 19" "2 * C < 2 powi 20"
    and W: "2 * (C - B) = W" "196608 \<le> C - B" "fl W = W"
  shows "fl (fl (C * a) - fl (B * a)) \<le> W"
proof -
  have a2: "a \<le> 2" using a(2) by (simp add: power_int_minus) 
  define d where "d = C - B"
  define e :: rat where "e = 2 powi (- 51)"
  have e: "e = 1 / 2 ^ 51" by (simp add: e_def power_int_minus divide_simps)
  have d: "0 \<le> d" "196608 \<le> d" "2 * d = W" using B W by (simp_all add: d_def)
  have "d * a \<le> d * (2 - e)" using a d unfolding e_def by (intro mult_left_mono) simp_all
  also have "\<dots> = W - d * e" using d(3) by (simp add: algebra_simps)
  also have "\<dots> \<le> W - 196608 * e"
    using mult_right_mono [OF d(2), of e] by (simp add: e)
  finally have "(C - B) * a + 3 / 2 ^ 35 \<le> W" by (simp add: e d_def)
  then have "fl (C * a) - fl (B * a) \<le> W"
    using spread_error(2) [OF a(1) a2 B] by linarith
  then have "fl (fl (C * a) - fl (B * a)) \<le> fl W"
    using spread_error(1) [OF a(1) a2 B] by (intro fl_mono)
  with W(3) show ?thesis by simp
qed

lemma steps_bound:
  fixes r D W :: rat
  assumes r: "fl r = r" "0 \<le> r" "r < 1"
    and D: "0 \<le> D" "D \<le> of_int w"
    and W: "fl (of_int w + 1) = of_int w + 1"
      "fl ((1 - 2 powi (- 53)) * (of_int w + 1)) < of_int w + 1"
  shows "0 \<le> \<lfloor>fl (r * fl (D + 1))\<rfloor>" and "\<lfloor>fl (r * fl (D + 1))\<rfloor> \<le> w"
proof -
  have X0: "0 \<le> fl (D + 1)" using D by (intro fl_nonneg) simp
  have "fl (D + 1) \<le> fl (of_int w + 1)" using D by (intro fl_mono) simp_all
  then have X: "fl (D + 1) \<le> of_int w + 1" by (simp only: W(1))
  have p: "0 \<le> r * fl (D + 1)" using r X0 by simp
  then have "0 \<le> fl (r * fl (D + 1))" by (rule fl_nonneg)
  then show "0 \<le> \<lfloor>fl (r * fl (D + 1))\<rfloor>" by simp
  have "r \<le> 1 - 2 powi (- 53)" using r by (rule double_below_1)
  then have "r * fl (D + 1) \<le> (1 - 2 powi (- 53)) * (of_int w + 1)"
    using X X0 r by (intro mult_mono) simp_all
  then have "fl (r * fl (D + 1)) \<le> fl ((1 - 2 powi (- 53)) * (of_int w + 1))"
    using p by (intro fl_mono)
  with W(2) have "fl (r * fl (D + 1)) < of_int (w + 1)" by simp
  then have "\<lfloor>fl (r * fl (D + 1))\<rfloor> < w + 1" by (simp only: floor_less_iff)
  then show "\<lfloor>fl (r * fl (D + 1))\<rfloor> \<le> w" by simp
qed

lemma spread_all:
  fixes bi bx q :: int and a :: rat
  assumes a: "fl a = a" "1 \<le> a" "a \<le> 2"
    and q: "2 \<le> q" "q \<le> 6"
    and b: "0 < bi" "bi < bx" "6 * bi < 2 ^ 19" "6 * bx < 2 ^ 20" "196608 \<le> 3 * (bx - bi)"
    and edge: "fl (fl (of_int (3 * bx) * (2 - 2 powi (- 52))) - fl (of_int (3 * bi) * (2 - 2 powi (- 52))))
               \<le> of_int (6 * (bx - bi))"
  shows "fl (fl (of_int (bx * q) / 2 * a) - fl (of_int (bi * q) / 2 * a)) \<le> of_int (6 * (bx - bi))"
proof -
  define B :: rat where "B = of_int (bi * q) / 2"
  define C :: rat where "C = of_int (bx * q) / 2"
  define W :: rat where "W = of_int (6 * (bx - bi))"
  have q6: "bi * q \<le> bi * 6" "bx * q \<le> bx * 6" using q b by (simp_all add: mult_left_mono)
  have B0: "0 \<le> B" using q b by (simp add: B_def)
  have BC: "B \<le> C" using q b unfolding B_def C_def
    by (simp add: divide_right_mono mult_right_mono)
  have "bi * q < 2 ^ 19" using q6 b by linarith
  then have "(of_int (bi * q) :: rat) < of_int (2 ^ 19)" by (simp only: of_int_less_iff)
  then have B2: "2 * B < 2 powi 19" by (simp add: B_def)
  have "bx * q < 2 ^ 20" using q6 b by linarith
  then have "(of_int (bx * q) :: rat) < of_int (2 ^ 20)" by (simp only: of_int_less_iff)
  then have C2: "2 * C < 2 powi 20" by (simp add: C_def)
  have W: "fl W = W" unfolding W_def by (rule fl_of_int) (use b in simp_all)
  have d: "2 * (C - B) = of_int ((bx - bi) * q)"
    by (simp add: B_def C_def algebra_simps diff_divide_distrib)
  have "fl (fl (C * a) - fl (B * a)) \<le> W"
  proof (cases "q \<le> 5")
    case True
    then have "(bx - bi) * q \<le> (bx - bi) * 5" using b by (intro mult_left_mono) simp_all
    then have "(bx - bi) * q + 1 \<le> 6 * (bx - bi)" using b by linarith
    then have "(of_int ((bx - bi) * q + 1) :: rat) \<le> of_int (6 * (bx - bi))"
      by (simp only: of_int_le_iff)
    then have "2 * (C - B) + 1 \<le> W" unfolding d W_def by simp
    then show ?thesis using a(2,3) B0 BC B2 C2 W by (intro spread_small)
  next
    case False
    with q have q: "q = 6" by simp
    then have Bv: "B = of_int (3 * bi)" and Cv: "C = of_int (3 * bx)" by (simp_all add: B_def C_def)
    have dW: "2 * (C - B) = W" unfolding d W_def q by (simp add: algebra_simps)
    have "(of_int 196608 :: rat) \<le> of_int (3 * (bx - bi))" using b by (simp only: of_int_le_iff)
    then have big: "196608 \<le> C - B" by (simp add: Bv Cv)
    show ?thesis
    proof (cases "a = 2")
      case True
      have "fl (C * 2) = C * 2"
        using fl_of_int [of "6 * bx"] b by (simp add: Cv)
      moreover have "fl (B * 2) = B * 2"
        using fl_of_int [of "6 * bi"] b by (simp add: Bv)
      moreover have "C * 2 - B * 2 = W" using dW by simp
      ultimately show ?thesis using W by (simp add: True)
    next
      case False
      with a have "a < 2" by simp
      with a have "a = 2 - 2 powi (- 52) \<or> a \<le> 2 - 2 powi (- 51)" by (intro double_below_2)
      then show ?thesis
      proof
        assume e: "a = 2 - 2 powi (- 52)"
        show ?thesis unfolding Bv Cv W_def e by (rule edge)
      next
        assume "a \<le> 2 - 2 powi (- 51)"
        then show ?thesis using a(2) B0 BC B2 C2 dW big W by (intro spread_top)
      qed
    qed
  qed
  then show ?thesis by (simp add: B_def C_def W_def)
qed

lemma delay_generic:
  fixes bi bx q :: int and a r :: rat
  assumes a: "fl a = a" "1 \<le> a" "a \<le> 2"
    and r: "fl r = r" "0 \<le> r" "r < 1"
    and q: "2 \<le> q" "q \<le> 6"
    and b: "0 < bi" "bi < bx" "6 * bi < 2 ^ 19" "6 * bx < 2 ^ 20" "196608 \<le> 3 * (bx - bi)"
    and edge: "fl (fl (of_int (3 * bx) * (2 - 2 powi (- 52))) - fl (of_int (3 * bi) * (2 - 2 powi (- 52))))
               \<le> of_int (6 * (bx - bi))"
      "fl ((1 - 2 powi (- 53)) * (of_int (6 * (bx - bi)) + 1)) < of_int (6 * (bx - bi)) + 1"
    and amin: "amin = fl (of_int (bi * q) / 2 * a)"
    and amax: "amax = fl (of_int (bx * q) / 2 * a)"
  shows "of_int bi \<le> amin"
    and "amin \<le> fl (of_int \<lfloor>fl (r * fl (fl (amax - amin) + 1))\<rfloor> + amin)"
    and "fl (of_int \<lfloor>fl (r * fl (fl (amax - amin) + 1))\<rfloor> + amin) \<le> of_int (6 * bx)"
    and "of_int (bi * q) / 2 * a - 1 / 2 ^ 35 \<le> amin"
    and "fl (of_int \<lfloor>fl (r * fl (fl (amax - amin) + 1))\<rfloor> + amin)
           \<le> of_int (bx * q) / 2 * a + 1 + 1 / 2 ^ 32"
proof -
  define D where "D = fl (amax - amin)"
  define k where "k = \<lfloor>fl (r * fl (D + 1))\<rfloor>"
  have q6: "bi * 2 \<le> bi * q" "bi * q \<le> bi * 6" "bx * q \<le> bx * 6"
    using q b by (simp_all add: mult_left_mono)
  have B0: "(0::rat) \<le> of_int (bi * q) / 2" using q b by simp
  have Ba: "(0::rat) \<le> of_int (bi * q) / 2 * a" using B0 a by simp
  have BC: "(of_int (bi * q) :: rat) / 2 \<le> of_int (bx * q) / 2" using q b
    by (simp add: divide_right_mono mult_right_mono)
  have "(of_int (bi * 2) :: rat) \<le> of_int (bi * q)" using q6 by (simp only: of_int_le_iff)
  then have "(of_int bi :: rat) \<le> of_int (bi * q) / 2" by simp
  also have "\<dots> = of_int (bi * q) / 2 * 1" by simp
  also have "\<dots> \<le> of_int (bi * q) / 2 * a" using a B0 by (intro mult_left_mono)
  finally have "fl (of_int bi) \<le> fl (of_int (bi * q) / 2 * a)"
    using b by (intro fl_mono) simp_all
  moreover have "fl (of_int bi) = of_int bi" by (rule fl_of_int) (use b in simp_all)
  ultimately show lo: "of_int bi \<le> amin" by (simp add: amin)
  have amin0: "0 \<le> amin" using lo b by (simp add: order_trans [of 0 "of_int bi"])
  have idem: "fl amin = amin" unfolding amin using Ba by (rule fl_idem)
  have "(of_int (bi * q) :: rat) \<le> of_int (bi * 6)" using q6 by (simp only: of_int_le_iff)
  then have "(of_int (bi * q) :: rat) / 2 \<le> of_int (3 * bi)" by simp
  then have "of_int (bi * q) / 2 * a \<le> of_int (3 * bi) * 2"
    using a b by (intro mult_mono) simp_all
  then have Ba6: "of_int (bi * q) / 2 * a \<le> of_int (6 * bi)" by simp
  then have "fl (of_int (bi * q) / 2 * a) \<le> fl (of_int (3 * bi) * 2)"
    using Ba by (intro fl_mono) simp_all
  moreover have "fl (of_int (3 * bi) * 2) = of_int (6 * bi)"
    using fl_of_int [of "6 * bi"] b by simp
  ultimately have hi: "amin \<le> of_int (6 * bi)" by (simp add: amin)
  have "fl (of_int (bi * q) / 2 * a) \<le> fl (of_int (bx * q) / 2 * a)"
    using Ba BC a by (intro fl_mono mult_right_mono) simp_all
  then have t0: "0 \<le> amax - amin" by (simp add: amin amax)
  then have D0: "0 \<le> D" unfolding D_def by (rule fl_nonneg)
  have DW: "D \<le> of_int (6 * (bx - bi))"
    unfolding D_def amin amax using a q b edge(1) by (rule spread_all)
  have W1: "fl (of_int (6 * (bx - bi)) + 1) = of_int (6 * (bx - bi)) + 1"
    using fl_of_int [of "6 * (bx - bi) + 1"] b by simp
  have k0: "0 \<le> k" unfolding k_def using r D0 DW W1 edge(2) by (rule steps_bound(1))
  have kW: "k \<le> 6 * (bx - bi)" unfolding k_def using r D0 DW W1 edge(2) by (rule steps_bound(2))
  have "fl amin \<le> fl (of_int k + amin)" using amin0 k0 by (intro fl_mono) simp_all
  then show "amin \<le> fl (of_int \<lfloor>fl (r * fl (fl (amax - amin) + 1))\<rfloor> + amin)"
    by (simp add: idem k_def D_def)
  have "(of_int k :: rat) \<le> of_int (6 * (bx - bi))" using kW by (simp only: of_int_le_iff)
  then have "of_int k + amin \<le> of_int (6 * (bx - bi)) + of_int (6 * bi)" using hi by linarith
  also have "\<dots> = of_int (6 * bx)" by simp
  finally have kM: "of_int k + amin \<le> of_int (6 * bx)" .
  then have "fl (of_int k + amin) \<le> fl (of_int (6 * bx))"
    using amin0 k0 by (intro fl_mono) simp_all
  moreover have M: "fl (of_int (6 * bx)) = of_int (6 * bx)" by (rule fl_of_int) (use b in simp_all)
  ultimately show "fl (of_int \<lfloor>fl (r * fl (fl (amax - amin) + 1))\<rfloor> + amin) \<le> of_int (6 * bx)"
    by (simp add: k_def D_def)
  have p19: "(of_int (6 * bi) :: rat) < 2 powi 19"
    using b(3) of_int_less_iff [of "6 * bi" "2 ^ 19", where ?'a = rat] by simp
  have p20: "(of_int (6 * bx) :: rat) < 2 powi 20"
    using b(4) of_int_less_iff [of "6 * bx" "2 ^ 20", where ?'a = rat] by simp
  have "of_int (bi * q) / 2 * a < 2 powi 19" using Ba6 p19 by simp
  with Ba have "\<bar>fl (of_int (bi * q) / 2 * a) - of_int (bi * q) / 2 * a\<bar> \<le> 2 powi (19 - 54)"
    by (rule fl_err) simp
  then have "\<bar>amin - of_int (bi * q) / 2 * a\<bar> \<le> 1 / 2 ^ 35"
    by (simp add: amin power_int_minus divide_simps)
  then show "of_int (bi * q) / 2 * a - 1 / 2 ^ 35 \<le> amin" by linarith
  have "of_int (bi * q) / 2 * a \<le> of_int (bx * q) / 2 * a"
    using BC a by (intro mult_right_mono) simp_all
  with Ba have C0: "(0::rat) \<le> of_int (bx * q) / 2 * a" by linarith
  have "(of_int (bx * q) :: rat) \<le> of_int (bx * 6)" using q6 by (simp only: of_int_le_iff)
  then have "(of_int (bx * q) :: rat) / 2 \<le> of_int (3 * bx)" by simp
  then have Ca6: "of_int (bx * q) / 2 * a \<le> of_int (6 * bx)"
    using mult_mono [of "of_int (bx * q) / 2" "of_int (3 * bx)" a 2] a b by simp
  then have "of_int (bx * q) / 2 * a < 2 powi 20" using p20 by simp
  with C0 have "\<bar>fl (of_int (bx * q) / 2 * a) - of_int (bx * q) / 2 * a\<bar> \<le> 2 powi (20 - 54)"
    by (rule fl_err) simp
  then have "\<bar>amax - of_int (bx * q) / 2 * a\<bar> \<le> 2 / 2 ^ 35"
    by (simp add: amax power_int_minus divide_simps)
  then have e1: "amax \<le> of_int (bx * q) / 2 * a + 2 / 2 ^ 35" by linarith
  have "fl (of_int (bx * q) / 2 * a) \<le> fl (of_int (6 * bx))" using C0 Ca6 by (rule fl_mono)
  then have "amax \<le> of_int (6 * bx)" unfolding amax M .
  then have "amax - amin < 2 powi 20" using amin0 p20 by linarith
  with t0 have "\<bar>fl (amax - amin) - (amax - amin)\<bar> \<le> 2 powi (20 - 54)"
    by (rule fl_err) simp
  then have "\<bar>D - (amax - amin)\<bar> \<le> 2 / 2 ^ 35"
    by (simp add: D_def power_int_minus divide_simps)
  then have e2: "D \<le> amax - amin + 2 / 2 ^ 35" by linarith
  have "(of_int (6 * (bx - bi)) :: rat) + 1 \<le> of_int (6 * bx)"
    using b(1) of_int_le_iff [of "6 * (bx - bi) + 1" "6 * bx", where ?'a = rat] by simp
  then have "D + 1 < 2 powi 20" using DW p20 by linarith
  moreover have D1: "0 \<le> D + 1" using D0 by simp
  ultimately have "\<bar>fl (D + 1) - (D + 1)\<bar> \<le> 2 powi (20 - 54)"
    by (intro fl_err) simp_all
  then have "\<bar>fl (D + 1) - (D + 1)\<bar> \<le> 2 / 2 ^ 35"
    by (simp add: power_int_minus divide_simps)
  then have e3: "fl (D + 1) \<le> D + 1 + 2 / 2 ^ 35" by linarith
  have X0: "0 \<le> fl (D + 1)" using D1 by (rule fl_nonneg)
  have "r * fl (D + 1) \<le> 1 * fl (D + 1)" using r X0 by (intro mult_right_mono) simp_all
  then have "fl (r * fl (D + 1)) \<le> fl (fl (D + 1))" using r X0 by (intro fl_mono) simp_all
  then have "fl (r * fl (D + 1)) \<le> fl (D + 1)" using D1 by (simp add: fl_idem)
  moreover have "of_int k \<le> fl (r * fl (D + 1))" unfolding k_def by (rule of_int_floor_le)
  ultimately have e4: "of_int k \<le> fl (D + 1)" by linarith
  have "of_int k + amin < 2 powi 20" using kM p20 by linarith
  moreover have "0 \<le> of_int k + amin" using k0 amin0 by simp
  ultimately have "\<bar>fl (of_int k + amin) - (of_int k + amin)\<bar> \<le> 2 powi (20 - 54)"
    by (intro fl_err) simp_all
  then have "\<bar>fl (of_int k + amin) - (of_int k + amin)\<bar> \<le> 2 / 2 ^ 35"
    by (simp add: power_int_minus divide_simps)
  then have e5: "fl (of_int k + amin) \<le> of_int k + amin + 2 / 2 ^ 35" by linarith
  have "fl (of_int k + amin) \<le> of_int (bx * q) / 2 * a + 1 + 8 / 2 ^ 35"
    using e1 e2 e3 e4 e5 by linarith
  then show "fl (of_int \<lfloor>fl (r * fl (fl (amax - amin) + 1))\<rfloor> + amin)
           \<le> of_int (bx * q) / 2 * a + 1 + 1 / 2 ^ 32"
    by (simp add: k_def D_def)
qed

lemma edge_mobile:
  "fl (fl (of_int (3 * 150000) * (2 - 2 powi (- 52))) - fl (of_int (3 * 60000) * (2 - 2 powi (- 52))))
     \<le> of_int (6 * (150000 - 60000))"
  "fl ((1 - 2 powi (- 53)) * (of_int (6 * (150000 - 60000)) + 1)) < of_int (6 * (150000 - 60000)) + 1"
  by code_simp+

lemma edge_desktop:
  "fl (fl (of_int (3 * 120000) * (2 - 2 powi (- 52))) - fl (of_int (3 * 45000) * (2 - 2 powi (- 52))))
     \<le> of_int (6 * (120000 - 45000))"
  "fl ((1 - 2 powi (- 53)) * (of_int (6 * (120000 - 45000)) + 1)) < of_int (6 * (120000 - 45000)) + 1"
  by code_simp+

lemma getSmartSearchDelay_range:
  assumes s: "paced s" and r: "fl r = r" "0 \<le> r" "r < 1"
  shows "baseMin isMobile \<le> adjustedMin isMobile s"
    and "adjustedMin isMobile s \<le> getSmartSearchDelay isMobile s r"
    and "getSmartSearchDelay isMobile s r \<le> baseMax isMobile * 6"
    and "baseMin isMobile * failureMultiplier s * adaptiveDelayMultiplier s - 1 / 2 ^ 35
           \<le> getSmartSearchDelay isMobile s r"
    and "getSmartSearchDelay isMobile s r
           \<le> baseMax isMobile * failureMultiplier s * adaptiveDelayMultiplier s + 1 + 1 / 2 ^ 32"
proof -
  obtain q where q: "failureMultiplier s = of_int q / 2" "2 \<le> q" "q \<le> 6"
    using failureMultiplier_half [of s] by blast
  define a where "a = adaptiveDelayMultiplier s"
  have a: "fl a = a" "1 \<le> a" "a \<le> 2" using s by (simp_all add: paced_def a_def)
  define bi :: int where "bi = (if isMobile then 60000 else 45000)"
  define bx :: int where "bx = (if isMobile then 150000 else 120000)"
  have bmin: "baseMin isMobile = of_int bi" by (simp add: baseMin_def bi_def)
  have bmax: "baseMax isMobile = of_int bx" by (simp add: baseMax_def bx_def)
  have b: "0 < bi" "bi < bx" "6 * bi < 2 ^ 19" "6 * bx < 2 ^ 20" "196608 \<le> 3 * (bx - bi)"
    by (simp_all add: bi_def bx_def)
  have edge: "fl (fl (of_int (3 * bx) * (2 - 2 powi (- 52))) - fl (of_int (3 * bi) * (2 - 2 powi (- 52))))
               \<le> of_int (6 * (bx - bi))"
      "fl ((1 - 2 powi (- 53)) * (of_int (6 * (bx - bi)) + 1)) < of_int (6 * (bx - bi)) + 1"
    using edge_mobile edge_desktop unfolding bi_def bx_def by (cases isMobile; simp)+
  have q6: "bi * q \<le> bi * 6" "bx * q \<le> bx * 6" "0 \<le> bi * q" "0 \<le> bx * q"
    using q b by (simp_all add: mult_left_mono)
  have "bi * q < 2 ^ 19" "bx * q < 2 ^ 20" using q6 b by linarith+
  then have "bi * q < 2 ^ 53" "bx * q < 2 ^ 53" by simp_all
  note small = this
  have "fl (of_int (bi * q) / 2) = of_int (bi * q) / 2"
    using small(1) q6(3) by (rule fl_halves)
  then have B: "fl (baseMin isMobile * failureMultiplier s) = of_int (bi * q) / 2"
    by (simp add: bmin q(1))
  have "fl (of_int (bx * q) / 2) = of_int (bx * q) / 2"
    using small(2) q6(4) by (rule fl_halves)
  then have C: "fl (baseMax isMobile * failureMultiplier s) = of_int (bx * q) / 2"
    by (simp add: bmax q(1))
  have amin: "adjustedMin isMobile s = fl (of_int (bi * q) / 2 * a)"
    by (simp add: adjustedMin_def B a_def)
  have amax: "adjustedMax isMobile s = fl (of_int (bx * q) / 2 * a)"
    by (simp add: adjustedMax_def C a_def)
  note g = delay_generic [OF a r q(2,3) b edge amin amax]
  show "baseMin isMobile \<le> adjustedMin isMobile s" using g(1) by (simp add: bmin)
  show "adjustedMin isMobile s \<le> getSmartSearchDelay isMobile s r"
    using g(2) by (simp add: getSmartSearchDelay_def)
  show "getSmartSearchDelay isMobile s r \<le> baseMax isMobile * 6"
    using g(3) by (simp add: getSmartSearchDelay_def bmax mult.commute)
  have "baseMin isMobile * failureMultiplier s * adaptiveDelayMultiplier s = of_int (bi * q) / 2 * a"
    by (simp add: bmin q(1) a_def)
  then show "baseMin isMobile * failureMultiplier s * adaptiveDelayMultiplier s - 1 / 2 ^ 35
           \<le> getSmartSearchDelay isMobile s r"
    using g(2,4) amin by (simp only: getSmartSearchDelay_def)
  have "baseMax isMobile * failureMultiplier s * adaptiveDelayMultiplier s = of_int (bx * q) / 2 * a"
    by (simp add: bmax q(1) a_def)
  then show "getSmartSearchDelay isMobile s r
           \<le> baseMax isMobile * failureMultiplier s * adaptiveDelayMultiplier s + 1 + 1 / 2 ^ 32"
    using g(5) by (simp only: getSmartSearchDelay_def)
qed

lemma paced_count [simp]: "paced (s\<lparr>consecutiveFailures := n\<rparr>) = paced s"
  by (simp add: paced_def)

lemma handleSearchSuccess_rounded:
  assumes "paced s"
  shows "adaptiveDelayMultiplier (handleSearchSuccess s)
         = max 1 (fl (adaptiveDelayMultiplier s - fl (1 / 10)))"
proof (cases "1 < adaptiveDelayMultiplier s")
  case True
  then show ?thesis by (simp add: handleSearchSuccess_def Let_def)
next
  case False
  with assms have a: "adaptiveDelayMultiplier s = 1" by (simp add: paced_def)
  have "fl (1 - fl (1 / 10)) \<le> fl 1" by (rule fl_mono) (simp_all add: fl_tenth)
  then have "max 1 (fl (1 - fl (1 / 10))) = 1" by simp
  then show ?thesis by (simp add: handleSearchSuccess_def Let_def a)
qed

text \<open>
  Claim C3. Let the adaptive multiplier be the one that any history \<open>h\<close> of failed and
  successful attempts leaves, the failure count any \<open>n\<close>, and the random value \<open>r\<close> a
  binary64 number in the interval from 0 to 1 (1 excluded). Then the delay of
  \<open>getSmartSearchDelay\<close>, computed in binary64 as the source computes it, lies between
  \<open>base.min * 1.0\<close> and \<open>base.max * 3.0 * 2.0\<close>, with base 60 s to 150 s on mobile and
  45 s to 120 s on desktop; more precisely it lies between
  \<open>base.min * failureMultiplier * adaptiveMultiplier\<close> and
  \<open>base.max * failureMultiplier * adaptiveMultiplier + 1\<close>, up to the rounding of the
  products (less than \<open>1 / 2 ^ 32\<close> ms). The failure multiplier is exactly
  \<open>min (1 + 0.5 * consecutiveFailures) 3\<close>. The adaptive multiplier starts at 1 and stays
  between 1 and 2; a failed attempt adds 0.2 up to the cap 2 and a successful attempt
  subtracts 0.1 down to the floor 1, both in binary64 arithmetic, so that the result
  differs from the exact sum or difference by at most \<open>1 / 2 ^ 51\<close>.
\<close>

theorem getSmartSearchDelay_bounds:
  "(binary64 r \<and> 0 \<le> r \<and> r < 1 \<longrightarrow>
      baseMin isMobile * 1
        \<le> getSmartSearchDelay isMobile ((replay initial_Search h)\<lparr>consecutiveFailures := n\<rparr>) r
    \<and> getSmartSearchDelay isMobile ((replay initial_Search h)\<lparr>consecutiveFailures := n\<rparr>) r
        \<le> baseMax isMobile * 3 * 2
    \<and> baseMin isMobile * failureMultiplier ((replay initial_Search h)\<lparr>consecutiveFailures := n\<rparr>)
          * adaptiveDelayMultiplier ((replay initial_Search h)\<lparr>consecutiveFailures := n\<rparr>) - 1 / 2 ^ 35
        \<le> getSmartSearchDelay isMobile ((replay initial_Search h)\<lparr>consecutiveFailures := n\<rparr>) r
    \<and> getSmartSearchDelay isMobile ((replay initial_Search h)\<lparr>consecutiveFailures := n\<rparr>) r
        \<le> baseMax isMobile * failureMultiplier ((replay initial_Search h)\<lparr>consecutiveFailures := n\<rparr>)
          * adaptiveDelayMultiplier ((replay initial_Search h)\<lparr>consecutiveFailures := n\<rparr>) + 1 + 1 / 2 ^ 32)
   \<and> baseMin True = 60000 \<and> baseMax True = 150000
   \<and> baseMin False = 45000 \<and> baseMax False = 120000
   \<and> failureMultiplier s = min (1 + 1 / 2 * of_nat (consecutiveFailures s)) 3
   \<and> adaptiveDelayMultiplier initial_Search = 1
   \<and> 1 \<le> adaptiveDelayMultiplier (replay initial_Search h)
   \<and> adaptiveDelayMultiplier (replay initial_Search h) \<le> 2
   \<and> adaptiveDelayMultiplier (handleSearchFailure (replay initial_Search h))
       = min 2 (fl (adaptiveDelayMultiplier (replay initial_Search h) + fl (2 / 10)))
   \<and> \<bar>adaptiveDelayMultiplier (handleSearchFailure (replay initial_Search h))
        - min 2 (adaptiveDelayMultiplier (replay initial_Search h) + 2 / 10)\<bar> \<le> 1 / 2 ^ 51
   \<and> adaptiveDelayMultiplier (handleSearchSuccess (replay initial_Search h))
       = max 1 (fl (adaptiveDelayMultiplier (replay initial_Search h) - fl (1 / 10)))
   \<and> \<bar>adaptiveDelayMultiplier (handleSearchSuccess (replay initial_Search h))
        - max 1 (adaptiveDelayMultiplier (replay initial_Search h) - 1 / 10)\<bar> \<le> 1 / 2 ^ 51"
proof -
  let ?h = "replay initial_Search h"
  let ?s = "?h\<lparr>consecutiveFailures := n\<rparr>"
  have ph: "paced ?h" by (rule paced_replay [OF paced_initial])
  then have ps: "paced ?s" by simp
  have bounds: "binary64 r \<and> 0 \<le> r \<and> r < 1 \<longrightarrow>
      baseMin isMobile * 1 \<le> getSmartSearchDelay isMobile ?s r
    \<and> getSmartSearchDelay isMobile ?s r \<le> baseMax isMobile * 3 * 2
    \<and> baseMin isMobile * failureMultiplier ?s * adaptiveDelayMultiplier ?s - 1 / 2 ^ 35
        \<le> getSmartSearchDelay isMobile ?s r
    \<and> getSmartSearchDelay isMobile ?s r
        \<le> baseMax isMobile * failureMultiplier ?s * adaptiveDelayMultiplier ?s + 1 + 1 / 2 ^ 32"
  proof (intro impI)
    assume "binary64 r \<and> 0 \<le> r \<and> r < 1"
    then have r: "fl r = r" "0 \<le> r" "r < 1" by (simp_all add: binary64_def)
    note g = getSmartSearchDelay_range [OF ps r, of isMobile]
    have "baseMin isMobile * 1 \<le> getSmartSearchDelay isMobile ?s r"
      using g(1,2) by simp
    moreover have "getSmartSearchDelay isMobile ?s r \<le> baseMax isMobile * 3 * 2"
      using g(3) by (simp add: mult.assoc)
    ultimately show "baseMin isMobile * 1 \<le> getSmartSearchDelay isMobile ?s r
      \<and> getSmartSearchDelay isMobile ?s r \<le> baseMax isMobile * 3 * 2
      \<and> baseMin isMobile * failureMultiplier ?s * adaptiveDelayMultiplier ?s - 1 / 2 ^ 35
          \<le> getSmartSearchDelay isMobile ?s r
      \<and> getSmartSearchDelay isMobile ?s r
          \<le> baseMax isMobile * failureMultiplier ?s * adaptiveDelayMultiplier ?s + 1 + 1 / 2 ^ 32"
      using g(4,5) by blast
  qed
  have base: "baseMin True = 60000 \<and> baseMax True = 150000
     \<and> baseMin False = 45000 \<and> baseMax False = 120000"
    by (simp add: baseMin_def baseMax_def)
  have fm: "failureMultiplier s = min (1 + 1 / 2 * of_nat (consecutiveFailures s)) 3"
    by (rule failureMultiplier_exact)
  have start: "adaptiveDelayMultiplier initial_Search = 1"
    by (simp add: initial_Search_def)
  have range: "1 \<le> adaptiveDelayMultiplier ?h \<and> adaptiveDelayMultiplier ?h \<le> 2"
    using ph by (simp add: paced_def)
  have up: "adaptiveDelayMultiplier (handleSearchFailure ?h)
       = min 2 (fl (adaptiveDelayMultiplier ?h + fl (2 / 10)))"
    by (simp add: handleSearchFailure_def initial_Search_def)
  have up_near: "\<bar>adaptiveDelayMultiplier (handleSearchFailure ?h)
        - min 2 (adaptiveDelayMultiplier ?h + 2 / 10)\<bar> \<le> 1 / 2 ^ 51"
    using handleSearchFailure_near [OF ph] by (simp add: power_int_minus divide_simps)
  have down: "adaptiveDelayMultiplier (handleSearchSuccess ?h)
       = max 1 (fl (adaptiveDelayMultiplier ?h - fl (1 / 10)))"
    by (rule handleSearchSuccess_rounded [OF ph])
  have down_near: "\<bar>adaptiveDelayMultiplier (handleSearchSuccess ?h)
        - max 1 (adaptiveDelayMultiplier ?h - 1 / 10)\<bar> \<le> 1 / 2 ^ 51"
    using handleSearchSuccess_near [OF ph] by (simp add: power_int_minus divide_simps)
  from bounds base fm start range up up_near down down_near show ?thesis by blast
qed

text \<open>
  Claim C3 at its upper end: on mobile after five failed attempts the adaptive
  multiplier is the binary64 number just below 2, the failure multiplier is 3, and with
  the largest binary64 number below 1 as random value the delay is 900000 ms, which is
  \<open>base.max * 3.0 * 2.0\<close>. On desktop after three failures and with the random value 0
  the delay is the binary64 number just below 180000.
\<close>

theorem getSmartSearchDelay_bounds_witness:
  "binary64 (1 - 1 / 2 ^ 53)
   \<and> adaptiveDelayMultiplier (replay initial_Search [False, False, False, False, False])
       = 9007199254740991 / 4503599627370496
   \<and> failureMultiplier (replay initial_Search [False, False, False, False, False]) = 3
   \<and> getSmartSearchDelay True (replay initial_Search [False, False, False, False, False])
        (1 - 1 / 2 ^ 53) = 900000
   \<and> baseMin True * 1
       \<le> getSmartSearchDelay True (replay initial_Search [False, False, False, False, False])
            (1 - 1 / 2 ^ 53)
   \<and> getSmartSearchDelay True (replay initial_Search [False, False, False, False, False])
        (1 - 1 / 2 ^ 53) \<le> baseMax True * 3 * 2
   \<and> getSmartSearchDelay False (replay initial_Search [False, False, False]) 0
       = 6184752906239999 / 34359738368"
proof -
  let ?s = "replay initial_Search [False, False, False, False, False]"
  have s1: "handleSearchFailure \<lparr>consecutiveFailures = 0, adaptiveDelayMultiplier = 1\<rparr>
      = \<lparr>consecutiveFailures = 1, adaptiveDelayMultiplier = 5404319552844595 / 4503599627370496\<rparr>"
    by code_simp
  have s2: "handleSearchFailure
        \<lparr>consecutiveFailures = 1, adaptiveDelayMultiplier = 5404319552844595 / 4503599627370496\<rparr>
      = \<lparr>consecutiveFailures = 2, adaptiveDelayMultiplier = 3152519739159347 / 2251799813685248\<rparr>"
    by code_simp
  have s3: "handleSearchFailure
        \<lparr>consecutiveFailures = 2, adaptiveDelayMultiplier = 3152519739159347 / 2251799813685248\<rparr>
      = \<lparr>consecutiveFailures = 3, adaptiveDelayMultiplier = 7205759403792793 / 4503599627370496\<rparr>"
    by code_simp
  have s4: "handleSearchFailure
        \<lparr>consecutiveFailures = 3, adaptiveDelayMultiplier = 7205759403792793 / 4503599627370496\<rparr>
      = \<lparr>consecutiveFailures = 4, adaptiveDelayMultiplier = 2026619832316723 / 1125899906842624\<rparr>"
    by code_simp
  have s5: "handleSearchFailure
        \<lparr>consecutiveFailures = 4, adaptiveDelayMultiplier = 2026619832316723 / 1125899906842624\<rparr>
      = \<lparr>consecutiveFailures = 5, adaptiveDelayMultiplier = 9007199254740991 / 4503599627370496\<rparr>"
    by code_simp
  have st3: "replay initial_Search [False, False, False]
      = \<lparr>consecutiveFailures = 3, adaptiveDelayMultiplier = 7205759403792793 / 4503599627370496\<rparr>"
    by (simp only: replay.simps initial_Search_def s1 s2 s3 if_False)
  have st5: "?s
      = \<lparr>consecutiveFailures = 5, adaptiveDelayMultiplier = 9007199254740991 / 4503599627370496\<rparr>"
    by (simp only: replay.simps initial_Search_def s1 s2 s3 s4 s5 if_False)
  have r: "binary64 (1 - 1 / 2 ^ 53)" "0 \<le> (1 - 1 / 2 ^ 53 :: rat)" "(1 - 1 / 2 ^ 53 :: rat) < 1"
    by code_simp+
  have a: "adaptiveDelayMultiplier ?s = 9007199254740991 / 4503599627370496"
    by (simp only: st5 Search.simps)
  have f: "failureMultiplier ?s = 3"
    unfolding st5 by code_simp
  have v: "getSmartSearchDelay True ?s (1 - 1 / 2 ^ 53) = 900000"
    unfolding st5 by code_simp
  have d: "getSmartSearchDelay False (replay initial_Search [False, False, False]) 0
       = 6184752906239999 / 34359738368"
    unfolding st3 by code_simp
  have c: "?s\<lparr>consecutiveFailures := 5\<rparr> = ?s"
    unfolding st5 by simp
  have "baseMin True * 1 \<le> getSmartSearchDelay True ?s (1 - 1 / 2 ^ 53)
      \<and> getSmartSearchDelay True ?s (1 - 1 / 2 ^ 53) \<le> baseMax True * 3 * 2"
    using getSmartSearchDelay_bounds [where r = "1 - 1 / 2 ^ 53" and isMobile = True
        and h = "[False, False, False, False, False]" and n = 5] r
    unfolding c by blast
  with r(1) a f v d show ?thesis by blast
qed

section \<open>Properties of the query plan\<close>

lemma distinct_Set_add: "distinct s \<Longrightarrow> distinct (Set_add s x)"
  by (simp add: Set_add_def)

lemma set_Set_add: "set (Set_add s x) = insert x (set s)"
  by (auto simp: Set_add_def)

lemma distinct_foldl_Set_add: "distinct s \<Longrightarrow> distinct (foldl Set_add s xs)"
  by (induction xs arbitrary: s) (simp_all add: distinct_Set_add)

lemma set_foldl_Set_add: "set (foldl Set_add s xs) = set s \<union> set xs"
  by (induction xs arbitrary: s) (auto simp: set_Set_add)

lemma distinct_array_from_Set: "distinct (array_from_Set xs)"
  by (simp add: array_from_Set_def distinct_foldl_Set_add)

lemma set_array_from_Set: "set (array_from_Set xs) = set xs"
  by (simp add: array_from_Set_def set_foldl_Set_add)

lemma flatten_texts:
  "\<forall>q \<in> set xs. is_Text q \<Longrightarrow> flatten_queries isMobile h xs = map (query_topic h) xs"
proof (induction xs)
  case Nil
  then show ?case by (simp add: flatten_queries_def)
next
  case (Cons q xs)
  then obtain x where "q = Text x" by (cases q) auto
  with Cons show ?case by (simp add: flatten_queries_def)
qed

lemma inj_on_topic_texts: "\<forall>q \<in> A. is_Text q \<Longrightarrow> inj_on (query_topic h) A"
proof (rule inj_onI)
  fix p q
  assume a: "\<forall>q \<in> A. is_Text q" "p \<in> A" "q \<in> A" "query_topic h p = query_topic h q"
  then have "is_Text p" "is_Text q" by auto
  with a(4) show "p = q" by (cases p; cases q) auto
qed

text \<open>
  What the \<open>Set\<close> does guarantee: the resulting array has no entry twice (plain
  strings compared by their exact text, objects by reference) and holds the same
  entries as the shuffled plan. When every planned entry is a plain string, no text
  appears twice in the flattened sequence of queries, on either device class.
\<close>

lemma plan_deduplicated:
  "distinct (array_from_Set xs) \<and> set (array_from_Set xs) = set xs
   \<and> ((\<forall>q \<in> set xs. is_Text q) \<longrightarrow>
         distinct (flatten_queries isMobile h (array_from_Set xs)))"
proof (intro conjI impI)
  show "distinct (array_from_Set xs)" by (rule distinct_array_from_Set)
  show "set (array_from_Set xs) = set xs" by (rule set_array_from_Set)
  assume t: "\<forall>q \<in> set xs. is_Text q"
  then have t': "\<forall>q \<in> set (array_from_Set xs). is_Text q" by (simp add: set_array_from_Set)
  have "distinct (map (query_topic h) (array_from_Set xs))"
    using inj_on_topic_texts [OF t'] distinct_array_from_Set [of xs] by (simp add: distinct_map)
  then show "distinct (flatten_queries isMobile h (array_from_Set xs))"
    by (simp add: flatten_texts [OF t'])
qed

lemma plan_of_strings:
  "array_from_Set [Text ''tea'', Text ''rice'', Text ''tea''] = [Text ''tea'', Text ''rice'']
   \<and> distinct (flatten_queries True two_trends
        (array_from_Set [Text ''tea'', Text ''rice'', Text ''tea'']))"
  using plan_deduplicated [of "[Text ''tea'', Text ''rice'', Text ''tea'']" True two_trends]
  by (simp add: array_from_Set_def Set_add_def)

text \<open>
  Claim C8, evaluated at a failing input. The plan holds two distinct trend objects,
  \<open>weather\<close> and \<open>storm\<close>, that share the related term \<open>forecast\<close>. Both pass the
  \<open>Set\<close>, which compares objects by reference and runs before the related terms are
  pushed, and on desktop the flattened sequence of queries holds \<open>forecast\<close> twice.
\<close>

theorem shared_term_searched_twice:
  "flatten_queries False two_trends (array_from_Set [Ref 0, Ref 1])
     = [''weather'', ''forecast'', ''storm'', ''forecast'']
   \<and> \<not> distinct (flatten_queries False two_trends (array_from_Set [Ref 0, Ref 1]))"
  by (simp add: array_from_Set_def Set_add_def flatten_queries_def two_trends_def)

section \<open>Properties of one query attempt\<close>

declare bingSearch_from.simps [simp del]

lemma bing_pass_cong:
  assumes a: "attempts d i = attempts d' i" and f: "fallbackPoints d = fallbackPoints d'"
  shows "bing_pass d i s = bing_pass d' i s"
proof -
  have e: "getEmptySearchCounters d = getEmptySearchCounters d'"
    using f by (simp add: getEmptySearchCounters_def)
  show ?thesis unfolding bing_pass_def a e ..
qed

lemma bingSearch_from_cong:
  "\<forall>j<5. attempts d j = attempts d' j \<Longrightarrow> fallbackPoints d = fallbackPoints d' \<Longrightarrow>
   bingSearch_from d i s = bingSearch_from d' i s"
proof (induction d i s rule: bingSearch_from.induct)
  case (1 d i s)
  have e: "getEmptySearchCounters d = getEmptySearchCounters d'"
    using "1.prems" by (simp add: getEmptySearchCounters_def)
  show ?case
  proof (cases "i < 5")
    case False
    then show ?thesis by (simp add: e bingSearch_from.simps [of d] bingSearch_from.simps [of d'])
  next
    case True
    then have p: "bing_pass d i s = bing_pass d' i s"
      using "1.prems" by (intro bing_pass_cong) auto
    show ?thesis
    proof (cases "bing_pass d i s")
      case (Continues s')
      then have q: "bing_pass d' i s = Continues s'" using p by simp
      have "bingSearch_from d (i + 1) s' = bingSearch_from d' (i + 1) s'"
        using True Continues "1.IH" [of s'] "1.prems" by simp
      with True Continues q show ?thesis
        by (simp add: bingSearch_from.simps [of d i] bingSearch_from.simps [of d' i])
    next
      case (Returns c' s')
      then have q: "bing_pass d' i s = Returns c' s'" using p by simp
      with True Returns show ?thesis
        by (simp add: bingSearch_from.simps [of d i] bingSearch_from.simps [of d' i])
    next
      case (Breaks s')
      then have q: "bing_pass d' i s = Breaks s'" using p by simp
      with True Breaks e show ?thesis
        by (simp add: bingSearch_from.simps [of d i] bingSearch_from.simps [of d' i])
    qed
  qed
qed

lemma bing_pass_empty:
  "\<forall>c. attempts d i \<noteq> Fetched (Some c) \<Longrightarrow> bing_pass d i s = Returns c' s' \<Longrightarrow>
   c' = getEmptySearchCounters d"
  by (auto simp: bing_pass_def Let_def split: attempt.splits option.splits if_splits)

lemma bingSearch_from_empty:
  "\<forall>j<5. \<forall>c. attempts d j \<noteq> Fetched (Some c) \<Longrightarrow>
   fst (bingSearch_from d i s) = getEmptySearchCounters d"
proof (induction d i s rule: bingSearch_from.induct)
  case (1 d i s)
  show ?case
  proof (cases "i < 5")
    case False
    then show ?thesis by (simp add: bingSearch_from.simps [of d i])
  next
    case True
    then have a: "\<forall>c. attempts d i \<noteq> Fetched (Some c)" using "1.prems" by simp
    show ?thesis
    proof (cases "bing_pass d i s")
      case (Returns c' s')
      with True bing_pass_empty [OF a Returns] show ?thesis
        by (simp add: bingSearch_from.simps [of d i])
    next
      case (Continues s')
      with True "1.IH" [of s'] "1.prems" show ?thesis
        by (simp add: bingSearch_from.simps [of d i])
    next
      case (Breaks s')
      with True show ?thesis by (simp add: bingSearch_from.simps [of d i])
    qed
  qed
qed

lemma bingSearch_answering: "bingSearch (answering c) s = (c, handleSearchSuccess s)"
  by (simp add: bingSearch_def bingSearch_from.simps [of _ 0] bing_pass_def answering_def)

lemma bingSearch_closed_browser:
  "bingSearch (closed_browser r) s =
     (case r of Some c \<Rightarrow> c | None \<Rightarrow> emptyCounters, handleSearchFailure s)"
  by (simp add: bingSearch_def bingSearch_from.simps [of _ 0] bing_pass_def closed_browser_def
      getEmptySearchCounters_def)

lemma calculatePoints_mobile_points: "calculatePoints True (mobile_points p m) = m - p"
  by (simp add: calculatePoints_def mobile_points_def at_index_def)

lemma calculatePoints_desktop_points: "calculatePoints False (desktop_points p m) = m - p"
  by (simp add: calculatePoints_def desktop_points_def at_index_def)

lemma calculatePoints_emptyCounters: "calculatePoints isMobile emptyCounters = 0"
  by (cases isMobile) (simp_all add: calculatePoints_def emptyCounters_def at_index_def)


section \<open>Properties of one iteration of the main loop\<close>

lemma select_query_fields:
  "missingPoints (snd (select_query inp q st)) = missingPoints st"
  "maxLoop (snd (select_query inp q st)) = maxLoop st"
  "earnedPoints (snd (select_query inp q st)) = earnedPoints st"
  "engine (snd (select_query inp q st)) = engine st"
  "effects (snd (select_query inp q st)) = effects st"
  "extraSearchCount (snd (select_query inp q st)) = extraSearchCount st"
  by (simp_all add: select_query_def)

lemma run_attempt_fields:
  "fst (run_attempt isMobile inp query st) = new_deficit isMobile inp st"
  "missingPoints (snd (run_attempt isMobile inp query st)) = missingPoints st"
  "maxLoop (snd (run_attempt isMobile inp query st)) = maxLoop st"
  "earnedPoints (snd (run_attempt isMobile inp query st)) =
     earnedPoints st + max 0 (missingPoints st - new_deficit isMobile inp st)"
  "effects (snd (run_attempt isMobile inp query st)) = effects st @ [Searched query]"
  "extraSearchCount (snd (run_attempt isMobile inp query st)) = extraSearchCount st"
  by (simp_all add: run_attempt_def new_deficit_def emit_def Let_def split: prod.splits)

lemma attempted_fields:
  "missingPoints (attempted isMobile inp q st) = missingPoints st"
  "maxLoop (attempted isMobile inp q st) = maxLoop st"
  "earnedPoints (attempted isMobile inp q st) =
     earnedPoints st + max 0 (missingPoints st - new_deficit isMobile inp st)"
  "effects (attempted isMobile inp q st) = effects st @ [Searched (fst (select_query inp q st))]"
  "extraSearchCount (attempted isMobile inp q st) = extraSearchCount st"
  by (simp_all add: attempted_def run_attempt_fields select_query_fields new_deficit_def)

lemma search_iteration_settle:
  "\<not> elapsed inp > searchTimeoutMs \<Longrightarrow>
   search_iteration isMobile inp q st =
     settle isMobile inp (new_deficit isMobile inp st) (fst (select_query inp q st))
       (attempted isMobile inp q st)"
  by (simp add: search_iteration_def attempted_def case_prod_beta Let_def run_attempt_fields(1)
      new_deficit_def select_query_fields(4))

lemmas settle_defs = settle_def note_stall_def force_check_def after_attempt_def completion_def
  refresh_user_agent_def give_up_def emit_def Let_def

lemma settle_changed:
  "new \<noteq> missingPoints st \<Longrightarrow>
   settle isMobile inp new query st =
     (if new = 0
      then completion inp (st\<lparr>maxLoop := 0, lastSuccessfulQuery := Some query, missingPoints := 0\<rparr>)
      else Continue (emit (Waited (getSmartSearchDelay isMobile (engine st) (rnd inp)))
             (st\<lparr>maxLoop := 0, lastSuccessfulQuery := Some query, missingPoints := new\<rparr>)))"
  by (simp add: settle_def note_stall_def after_attempt_def emit_def)

lemma after_attempt_ends:
  "after_attempt isMobile inp st \<noteq> Proceed st'" "after_attempt isMobile inp st \<noteq> Return st'"
  by (simp_all add: after_attempt_def completion_def refresh_user_agent_def give_up_def Let_def
      split: option.splits)

lemma force_check_ends:
  "force_check isMobile inp st \<noteq> Return st'" "force_check isMobile inp st \<noteq> Break st'"
  "force_check isMobile inp st \<noteq> Throw e"
  by (simp_all add: force_check_def Let_def split: option.splits)

lemma note_stall_ends:
  "note_stall isMobile inp new query st \<noteq> Return st'"
  "note_stall isMobile inp new query st \<noteq> Break st'"
  "note_stall isMobile inp new query st \<noteq> Throw e"
proof -
  let ?st1 = "st\<lparr>maxLoop := maxLoop st + 1\<rparr>"
  have "note_stall isMobile inp new query st \<noteq> Return st'
      \<and> note_stall isMobile inp new query st \<noteq> Break st'
      \<and> note_stall isMobile inp new query st \<noteq> Throw e"
  proof (cases "new = missingPoints st \<and> maxLoop ?st1 = 3")
    case True
    then show ?thesis
      using force_check_ends [of isMobile inp ?st1]
      by (cases "force_check isMobile inp ?st1") (simp_all add: note_stall_def Let_def)
  next
    case False
    then show ?thesis by (auto simp: note_stall_def Let_def)
  qed
  then show "note_stall isMobile inp new query st \<noteq> Return st'"
    "note_stall isMobile inp new query st \<noteq> Break st'"
    "note_stall isMobile inp new query st \<noteq> Throw e" by simp_all
qed

lemma settle_not_Proceed: "settle isMobile inp new query st \<noteq> Proceed st'"
  by (cases "note_stall isMobile inp new query st") (simp_all add: settle_def after_attempt_ends)

lemma settle_not_Return: "settle isMobile inp new query st \<noteq> Return st'"
  by (cases "note_stall isMobile inp new query st")
     (simp_all add: settle_def after_attempt_ends note_stall_ends)

lemma search_iteration_not_Proceed: "search_iteration isMobile inp q st \<noteq> Proceed st'"
  by (cases "elapsed inp > searchTimeoutMs")
     (simp_all add: search_iteration_settle settle_not_Proceed, simp add: search_iteration_def)

lemma search_iteration_not_Return: "search_iteration isMobile inp q st \<noteq> Return st'"
  by (cases "elapsed inp > searchTimeoutMs")
     (simp_all add: search_iteration_settle settle_not_Return, simp add: search_iteration_def)

lemma settle_same_counter:
  "state_of (settle isMobile inp (missingPoints st) query st) = Some st' \<Longrightarrow>
   maxLoop st' = 0 \<or> maxLoop st' = maxLoop st + 1"
  by (auto simp: settle_defs split: if_splits option.splits flow.splits)

lemma settle_same_reset:
  "state_of (settle isMobile inp (missingPoints st) query st) = Some st' \<Longrightarrow> maxLoop st' = 0 \<Longrightarrow>
   (maxLoop st = 2 \<and> (\<exists>c. forceCheck inp = Some c \<and> calculatePoints isMobile c \<noteq> missingPoints st))
   \<or> (isMobile \<and> 5 \<le> maxLoop st) \<or> maxLoopLimit isMobile \<le> maxLoop st"
  by (auto simp: settle_defs split: if_splits option.splits flow.splits)

lemma settle_changed_counter:
  "new \<noteq> missingPoints st \<Longrightarrow> state_of (settle isMobile inp new query st) = Some st' \<Longrightarrow>
   maxLoop st' = 0"
  by (auto simp: settle_changed completion_def emit_def Let_def split: if_splits option.splits)


text \<open>
  Claim C10, as amended. When no pass of \<open>bingSearch\<close> ends with a successful points
  fetch, \<open>bingSearch\<close> returns what \<open>getEmptySearchCounters\<close> returns: the counters it
  fetches itself when that fetch works, and the value with all arrays empty only when
  that fetch fails too. For the empty value \<open>calculatePoints\<close> is 0 on either device
  class. An iteration of the main loop that starts with a non-zero deficit and whose
  attempt returns the empty value stores the deficit 0 and takes the completion branch:
  it leaves the loop by \<open>break\<close> when the verification fetch of that branch works, and
  the exception of that fetch leaves \<open>doSearch\<close> when it does not.
\<close>

theorem unrecoverable_attempt:
  "((\<forall>i<5. \<forall>c. attempts d i \<noteq> Fetched (Some c)) \<longrightarrow>
      fst (bingSearch d s) = getEmptySearchCounters d)
   \<and> (\<forall>c. fallbackPoints d = Some c \<longrightarrow> getEmptySearchCounters d = c)
   \<and> (fallbackPoints d = None \<longrightarrow> getEmptySearchCounters d = emptyCounters)
   \<and> calculatePoints isMobile emptyCounters = 0
   \<and> (\<not> elapsed inp > searchTimeoutMs \<and> missingPoints st \<noteq> 0
        \<and> fst (bingSearch (browser inp) (engine st)) = emptyCounters \<longrightarrow>
        (case finalVerify inp of
           Some c \<Rightarrow> (\<exists>st'. search_iteration isMobile inp q st = Break st' \<and> missingPoints st' = 0)
         | None \<Rightarrow> search_iteration isMobile inp q st = Throw FetchError))"
proof (intro conjI impI allI)
  assume "\<forall>i<5. \<forall>c. attempts d i \<noteq> Fetched (Some c)"
  then show "fst (bingSearch d s) = getEmptySearchCounters d"
    unfolding bingSearch_def by (rule bingSearch_from_empty)
next
  fix c assume "fallbackPoints d = Some c"
  then show "getEmptySearchCounters d = c" by (simp add: getEmptySearchCounters_def)
next
  assume "fallbackPoints d = None"
  then show "getEmptySearchCounters d = emptyCounters" by (simp add: getEmptySearchCounters_def)
next
  show "calculatePoints isMobile emptyCounters = 0" by (rule calculatePoints_emptyCounters)
next
  assume a: "\<not> elapsed inp > searchTimeoutMs \<and> missingPoints st \<noteq> 0
        \<and> fst (bingSearch (browser inp) (engine st)) = emptyCounters"
  then have new: "new_deficit isMobile inp st = 0"
    by (simp add: new_deficit_def calculatePoints_emptyCounters)
  have "search_iteration isMobile inp q st =
          settle isMobile inp 0 (fst (select_query inp q st)) (attempted isMobile inp q st)"
    using a new search_iteration_settle [of inp isMobile q st] by simp
  also have "\<dots> = completion inp ((attempted isMobile inp q st)
      \<lparr>maxLoop := 0, lastSuccessfulQuery := Some (fst (select_query inp q st)), missingPoints := 0\<rparr>)"
    using a by (simp add: settle_changed attempted_fields)
  finally show "case finalVerify inp of
           Some c \<Rightarrow> (\<exists>st'. search_iteration isMobile inp q st = Break st' \<and> missingPoints st' = 0)
         | None \<Rightarrow> search_iteration isMobile inp q st = Throw FetchError"
    by (simp add: completion_def emit_def Let_def split: option.splits)
qed

text \<open>
  The amended claim C10 on mobile with 30 points missing, a closed browser and a
  dashboard that cannot be fetched during the attempt.
\<close>

theorem unrecoverable_attempt_witness:
  "fst (bingSearch (closed_browser None) initial_Search) = emptyCounters
   \<and> (\<exists>st'. search_iteration True ((quiet (mobile_points 0 30))\<lparr>browser := closed_browser None\<rparr>)
               ''news'' (start_run initial_Search 30) = Break st' \<and> missingPoints st' = 0)"
  using unrecoverable_attempt [of "closed_browser None" initial_Search True
      "(quiet (mobile_points 0 30))\<lparr>browser := closed_browser None\<rparr>" "start_run initial_Search 30"
      "''news''"]
  by (simp add: closed_browser_def quiet_def start_run_def searchTimeoutMs_def
      bingSearch_closed_browser [unfolded closed_browser_def])

text \<open>
  Claim C10 as stated fails: with a closed browser and a dashboard that can still be
  fetched, \<open>bingSearch\<close> returns the fetched counters, whose mobile array is not empty,
  and the deficit computed from them is 20, not 0.
\<close>

theorem unrecoverable_attempt_counterexample:
  "fst (bingSearch (closed_browser (Some (mobile_points 10 30))) initial_Search) = mobile_points 10 30
   \<and> mobileSearch (fst (bingSearch (closed_browser (Some (mobile_points 10 30))) initial_Search))
       = [\<lparr>pointProgress = 10, pointProgressMax = 30\<rparr>]
   \<and> calculatePoints True
        (fst (bingSearch (closed_browser (Some (mobile_points 10 30))) initial_Search)) = 20"
  by (simp add: bingSearch_closed_browser calculatePoints_mobile_points)
     (simp add: mobile_points_def)

text \<open>
  Claim C5, as amended. The tracked deficit is not kept monotone. After an attempt
  whose computed deficit differs from the tracked one and is not 0, the loop goes on
  with the tracked deficit overwritten by the computed one, whether that is smaller or
  larger; the stall counter is 0, the query is recorded as the last successful one, and
  \<open>earnedPoints\<close> has grown by the decrease of the deficit, so a larger deficit adds
  nothing to it.
\<close>

theorem deficit_overwritten:
  assumes "\<not> elapsed inp > searchTimeoutMs"
    and "new_deficit isMobile inp st \<noteq> missingPoints st"
    and "new_deficit isMobile inp st \<noteq> 0"
  shows "\<exists>st'. search_iteration isMobile inp q st = Continue st'
      \<and> missingPoints st' = new_deficit isMobile inp st
      \<and> maxLoop st' = 0
      \<and> lastSuccessfulQuery st' = Some (fst (select_query inp q st))
      \<and> earnedPoints st' = earnedPoints st + max 0 (missingPoints st - new_deficit isMobile inp st)"
  using assms
  by (simp add: search_iteration_settle settle_changed attempted_fields emit_def)

text \<open>
  The amended claim C5 on mobile: the tracked deficit is 10 and the attempt reports 15.
\<close>

theorem deficit_overwritten_witness:
  "\<exists>st'. search_iteration True (quiet (mobile_points 15 30)) ''news'' (start_run initial_Search 10)
            = Continue st'
      \<and> missingPoints st' = 15 \<and> maxLoop st' = 0 \<and> earnedPoints st' = 0"
proof -
  have n: "new_deficit True (quiet (mobile_points 15 30)) (start_run initial_Search 10) = 15"
    by (simp add: new_deficit_def quiet_def bingSearch_answering calculatePoints_mobile_points)
  have t: "\<not> elapsed (quiet (mobile_points 15 30)) > searchTimeoutMs"
    by (simp add: quiet_def searchTimeoutMs_def)
  show ?thesis
    using deficit_overwritten [of "quiet (mobile_points 15 30)" True "start_run initial_Search 10" "''news''"]
      n t
    by (auto simp: start_run_def)
qed


lemma getSmartSearchDelay_initial:
  "getSmartSearchDelay isMobile \<lparr>consecutiveFailures = 0, adaptiveDelayMultiplier = 1\<rparr> 0
     = baseMin isMobile"
proof -
  have b: "fl (baseMin isMobile) = baseMin isMobile"
    by (cases isMobile) (simp_all add: baseMin_def fl_numeral)
  have "failureMultiplier \<lparr>consecutiveFailures = 0, adaptiveDelayMultiplier = 1\<rparr> = 1"
    by (simp add: failureMultiplier_def)
  then have "adjustedMin isMobile \<lparr>consecutiveFailures = 0, adaptiveDelayMultiplier = 1\<rparr>
      = baseMin isMobile"
    by (simp add: adjustedMin_def b)
  then show ?thesis by (simp add: getSmartSearchDelay_def b)
qed

lemmas run_defs = search_iteration_def select_query_def run_attempt_def settle_defs
  quiet_def bingSearch_answering searchTimeoutMs_def maxLoopLimit_def start_run_def
  initial_Search_def handleSearchSuccess_def getSmartSearchDelay_initial baseMin_def
  calculatePoints_mobile_points calculatePoints_desktop_points

text \<open>
  Claim C5 as stated fails: on mobile, with 10 points missing, two attempts leave the
  deficit at 10 and the third reports 15; the tracked deficit is then 15 and the stall
  counter 0, so the larger deficit was taken over and counted as a change.
\<close>

theorem deficit_raised_counterexample:
  "map_option missingPoints (state_of (search_loop True rising_mobile 0
       [''tea'', ''rice'', ''salt''] (start_run initial_Search 10))) = Some 15
   \<and> map_option maxLoop (state_of (search_loop True rising_mobile 0
       [''tea'', ''rice'', ''salt''] (start_run initial_Search 10))) = Some 0
   \<and> map_option maxLoop (state_of (search_loop True rising_mobile 0
       [''tea'', ''rice''] (start_run initial_Search 10))) = Some 2"
  by (simp add: rising_mobile_def run_defs)

text \<open>
  Claim C6, as amended. After an attempt that changes the deficit, a decrease (Gained)
  as well as an increase, the stall counter is 0 whatever it was before. After an
  attempt that leaves the deficit unchanged the counter is one more than before or 0,
  and it is 0 only in three cases: the counter reached 3 and the forced re-fetch read
  another deficit, the device class is mobile and the counter went over 5, or the
  counter went over the limit of the device class and the loop was left.
\<close>

theorem stall_counter_reset:
  assumes t: "\<not> elapsed inp > searchTimeoutMs"
    and s: "state_of (search_iteration isMobile inp q st) = Some st'"
  shows "(new_deficit isMobile inp st < missingPoints st \<longrightarrow> maxLoop st' = 0)
     \<and> (new_deficit isMobile inp st \<noteq> missingPoints st \<longrightarrow> maxLoop st' = 0)
     \<and> (new_deficit isMobile inp st = missingPoints st \<longrightarrow>
           maxLoop st' = 0 \<or> maxLoop st' = maxLoop st + 1)
     \<and> (new_deficit isMobile inp st = missingPoints st \<and> maxLoop st' = 0 \<longrightarrow>
           (maxLoop st = 2 \<and> (\<exists>c. forceCheck inp = Some c
                                  \<and> calculatePoints isMobile c \<noteq> missingPoints st))
         \<or> (isMobile \<and> 5 \<le> maxLoop st) \<or> maxLoopLimit isMobile \<le> maxLoop st)"
proof -
  let ?a = "attempted isMobile inp q st"
  let ?query = "fst (select_query inp q st)"
  have s': "state_of (settle isMobile inp (new_deficit isMobile inp st) ?query ?a) = Some st'"
    using s t by (simp add: search_iteration_settle)
  have changed: "new_deficit isMobile inp st \<noteq> missingPoints st \<longrightarrow> maxLoop st' = 0"
    using settle_changed_counter [of "new_deficit isMobile inp st" ?a isMobile inp ?query st'] s'
    by (simp add: attempted_fields)
  have same: "new_deficit isMobile inp st = missingPoints st \<longrightarrow>
      maxLoop st' = 0 \<or> maxLoop st' = maxLoop st + 1"
    using settle_same_counter [of isMobile inp ?a ?query st'] s'
    by (auto simp: attempted_fields)
  have reset: "new_deficit isMobile inp st = missingPoints st \<and> maxLoop st' = 0 \<longrightarrow>
           (maxLoop st = 2 \<and> (\<exists>c. forceCheck inp = Some c
                                  \<and> calculatePoints isMobile c \<noteq> missingPoints st))
         \<or> (isMobile \<and> 5 \<le> maxLoop st) \<or> maxLoopLimit isMobile \<le> maxLoop st"
    using settle_same_reset [of isMobile inp ?a ?query st'] s'
    by (auto simp: attempted_fields)
  from changed same reset show ?thesis by simp
qed

text \<open>
  The amended claim C6 on mobile: the counter is 4, 30 points are missing and the
  attempt brings the deficit down to 25.
\<close>

theorem stall_counter_reset_witness:
  "\<exists>st'. state_of (search_iteration True (quiet (mobile_points 5 30)) ''news''
              ((start_run initial_Search 30)\<lparr>maxLoop := 4\<rparr>)) = Some st'
      \<and> maxLoop st' = 0"
proof -
  let ?inp = "quiet (mobile_points 5 30)"
  let ?st = "(start_run initial_Search 30)\<lparr>maxLoop := 4\<rparr>"
  have n: "new_deficit True ?inp ?st = 25"
    by (simp add: new_deficit_def quiet_def bingSearch_answering calculatePoints_mobile_points)
  have t: "\<not> elapsed ?inp > searchTimeoutMs"
    by (simp add: quiet_def searchTimeoutMs_def)
  obtain st' where s: "state_of (search_iteration True ?inp ''news'' ?st) = Some st'"
    by (simp add: run_defs)
  have "maxLoop st' = 0"
    using stall_counter_reset [OF t s] n by (simp add: start_run_def)
  with s show ?thesis by blast
qed

text \<open>
  Claim C6 as stated fails: on mobile, six attempts in a row leave the deficit at 30.
  After the fifth the stall counter is 5, after the sixth it is 0, although no attempt
  gained a point.
\<close>

theorem stall_counter_reset_counterexample:
  "map_option maxLoop (state_of (search_loop True stalled_mobile 0
       [''q1'', ''q2'', ''q3'', ''q4'', ''q5''] (start_run initial_Search 30))) = Some 5
   \<and> map_option maxLoop (state_of (search_loop True stalled_mobile 0
       [''q1'', ''q2'', ''q3'', ''q4'', ''q5'', ''q6''] (start_run initial_Search 30))) = Some 0
   \<and> map_option missingPoints (state_of (search_loop True stalled_mobile 0
       [''q1'', ''q2'', ''q3'', ''q4'', ''q5'', ''q6''] (start_run initial_Search 30))) = Some 30
   \<and> map_option earnedPoints (state_of (search_loop True stalled_mobile 0
       [''q1'', ''q2'', ''q3'', ''q4'', ''q5'', ''q6''] (start_run initial_Search 30))) = Some 0"
  by (simp add: stalled_mobile_def run_defs)


section \<open>The stall thresholds\<close>

lemma added_append:
  "effects a = effects st @ xs \<Longrightarrow> effects st' = effects a @ ys \<Longrightarrow> added st st' = xs @ ys"
  by (simp add: added_def)

lemma settle_at_3:
  "maxLoop a = 2 \<Longrightarrow> missingPoints a \<noteq> 0 \<Longrightarrow>
   \<exists>st' es. state_of (settle isMobile inp (missingPoints a) query a) = Some st'
     \<and> effects st' = effects a @ PointsFetched # es"
  by (auto simp: settle_defs maxLoopLimit_def split: option.splits)

lemma settle_at_5:
  "maxLoop a = 4 \<Longrightarrow> missingPoints a \<noteq> 0 \<Longrightarrow>
   \<exists>st' es. settle isMobile inp (missingPoints a) query a = Continue st' \<and> maxLoop st' = 5
     \<and> effects st' = effects a @ Waited 30000 # es"
  by (auto simp: settle_defs maxLoopLimit_def split: option.splits)

lemma settle_desktop_over_limit:
  "maxLoop a = 15 \<Longrightarrow> missingPoints a \<noteq> 0 \<Longrightarrow>
   \<exists>st' es. settle False inp (missingPoints a) query a = Break st'
     \<and> effects st' = effects a @ Logged Stuck # es"
  by (auto simp: settle_defs maxLoopLimit_def split: option.splits)

lemma settle_desktop_within_limit:
  "maxLoop a < 15 \<Longrightarrow> missingPoints a \<noteq> 0 \<Longrightarrow>
   \<exists>st'. settle False inp (missingPoints a) query a = Continue st'"
  by (auto simp: settle_defs maxLoopLimit_def split: option.splits)

lemma settle_mobile_over_5:
  "5 \<le> maxLoop a \<Longrightarrow> missingPoints a \<noteq> 0 \<Longrightarrow>
   \<exists>st' es. settle True inp (missingPoints a) query a = Continue st' \<and> maxLoop st' = 0
     \<and> effects st' = effects a @ es \<and> Logged Stuck \<notin> set es"
  by (auto simp: settle_defs maxLoopLimit_def split: option.splits)

lemma settle_mobile_same:
  "maxLoop a \<le> 5 \<Longrightarrow> state_of (settle True inp (missingPoints a) query a) = Some st' \<Longrightarrow>
   (Logged Stuck \<in> set (effects st') \<longrightarrow> Logged Stuck \<in> set (effects a))
   \<and> (settle True inp (missingPoints a) query a = Continue st' \<longrightarrow> maxLoop st' \<le> 5)"
  by (auto simp: settle_defs maxLoopLimit_def split: if_splits option.splits)

lemma settle_mobile_changed:
  "new \<noteq> missingPoints a \<Longrightarrow> state_of (settle True inp new query a) = Some st' \<Longrightarrow>
   (Logged Stuck \<in> set (effects st') \<longrightarrow> Logged Stuck \<in> set (effects a))
   \<and> (settle True inp new query a = Continue st' \<longrightarrow> maxLoop st' \<le> 5)"
  by (auto simp: settle_changed completion_def emit_def Let_def split: if_splits option.splits)

lemma mobile_iteration_never_stuck:
  assumes m: "maxLoop st \<le> 5" and s: "state_of (search_iteration True inp q st) = Some st'"
  shows "(Logged Stuck \<in> set (effects st') \<longrightarrow> Logged Stuck \<in> set (effects st))
     \<and> (search_iteration True inp q st = Continue st' \<longrightarrow> maxLoop st' \<le> 5)"
proof (cases "elapsed inp > searchTimeoutMs")
  case True
  with s show ?thesis by (auto simp: search_iteration_def emit_def)
next
  case False
  let ?a = "attempted True inp q st"
  let ?new = "new_deficit True inp st"
  let ?query = "fst (select_query inp q st)"
  have eq: "search_iteration True inp q st = settle True inp ?new ?query ?a"
    using False by (rule search_iteration_settle)
  have "(Logged Stuck \<in> set (effects st') \<longrightarrow> Logged Stuck \<in> set (effects ?a))
     \<and> (settle True inp ?new ?query ?a = Continue st' \<longrightarrow> maxLoop st' \<le> 5)"
  proof (cases "?new = missingPoints ?a")
    case True
    with m s eq settle_mobile_same [of ?a inp ?query st'] show ?thesis
      by (simp add: attempted_fields)
  next
    case False
    with s eq settle_mobile_changed [of ?new ?a inp ?query st'] show ?thesis by simp
  qed
  then show ?thesis by (simp add: eq attempted_fields)
qed

lemma mobile_loop_never_stuck:
  "maxLoop st \<le> 5 \<Longrightarrow> state_of (search_loop True w i queries st) = Some st' \<Longrightarrow>
   Logged Stuck \<in> set (effects st') \<Longrightarrow> Logged Stuck \<in> set (effects st)"
proof (induction queries arbitrary: i st)
  case Nil
  then show ?case by simp
next
  case (Cons q queries)
  show ?case
  proof (cases "search_iteration True (w i) q st")
    case (Proceed st1)
    then show ?thesis by (simp add: search_iteration_not_Proceed)
  next
    case (Continue st1)
    then have s1: "state_of (search_iteration True (w i) q st) = Some st1" by simp
    have m1: "maxLoop st1 \<le> 5"
      using mobile_iteration_never_stuck [OF Cons.prems(1) s1] Continue by simp
    have "Logged Stuck \<in> set (effects st1)"
      using Cons.IH [OF m1, of "i + 1"] Cons.prems(2,3) Continue by simp
    then show ?thesis
      using mobile_iteration_never_stuck [OF Cons.prems(1) s1] by simp
  next
    case (Break st1)
    then have s1: "state_of (search_iteration True (w i) q st) = Some st1" by simp
    have "st' = st1" using Cons.prems(2) Break by simp
    then show ?thesis
      using mobile_iteration_never_stuck [OF Cons.prems(1) s1] Cons.prems(3) by simp
  next
    case (Return st1)
    then show ?thesis by (simp add: search_iteration_not_Return)
  next
    case (Throw e)
    then show ?thesis using Cons.prems(2) by simp
  qed
qed

text \<open>
  The steps of the stall counter in an iteration whose attempt leaves a non-zero
  deficit unchanged: when the counter goes from 2 to 3 the counters are fetched again
  out of band; when it goes from 4 to 5 an extra wait of 30 s is added and the loop
  continues; on desktop the loop continues as long as the counter was below 15 and is
  left, with the stuck warning, when the counter goes over 15; on mobile, when the
  counter goes over 5, the branch that refreshes the User-Agent sets the counter to 0
  and continues the loop, so that the test against the mobile limit of 10, which
  follows that branch, is never reached with a counter over 5.
\<close>

lemma stall_counter_steps:
  "(\<not> elapsed inp > searchTimeoutMs \<and> new_deficit isMobile inp st = missingPoints st
      \<and> missingPoints st \<noteq> 0 \<longrightarrow>
      (maxLoop st = 2 \<longrightarrow>
         (\<exists>st'. state_of (search_iteration isMobile inp q st) = Some st'
            \<and> PointsFetched \<in> set (added st st')))
    \<and> (maxLoop st = 4 \<longrightarrow>
         (\<exists>st'. search_iteration isMobile inp q st = Continue st' \<and> maxLoop st' = 5
            \<and> Waited 30000 \<in> set (added st st')))
    \<and> (\<not> isMobile \<and> maxLoop st < 15 \<longrightarrow>
         (\<exists>st'. search_iteration isMobile inp q st = Continue st'))
    \<and> (\<not> isMobile \<and> maxLoop st = 15 \<longrightarrow>
         (\<exists>st'. search_iteration isMobile inp q st = Break st'
            \<and> Logged Stuck \<in> set (added st st')))
    \<and> (isMobile \<and> 5 \<le> maxLoop st \<longrightarrow>
         (\<exists>st'. search_iteration isMobile inp q st = Continue st' \<and> maxLoop st' = 0
            \<and> Logged Stuck \<notin> set (added st st'))))
   \<and> (maxLoop st0 \<le> 5 \<and> Logged Stuck \<notin> set (effects st0) \<longrightarrow>
        \<not> gave_up (search_loop True w i queries st0))"
proof (intro conjI impI)
  assume "maxLoop st0 \<le> 5 \<and> Logged Stuck \<notin> set (effects st0)"
  then show "\<not> gave_up (search_loop True w i queries st0)"
    using mobile_loop_never_stuck [of st0 w i queries]
    by (auto simp: gave_up_def split: option.splits)
next
  let ?a = "attempted isMobile inp q st"
  let ?query = "fst (select_query inp q st)"
  assume h: "\<not> elapsed inp > searchTimeoutMs \<and> new_deficit isMobile inp st = missingPoints st
      \<and> missingPoints st \<noteq> 0"
  then have eq: "search_iteration isMobile inp q st = settle isMobile inp (missingPoints ?a) ?query ?a"
    by (simp add: search_iteration_settle attempted_fields)
  have nz: "missingPoints ?a \<noteq> 0" using h by (simp add: attempted_fields)
  have ea: "effects ?a = effects st @ [Searched ?query]" by (simp add: attempted_fields)
  {
    assume "maxLoop st = 2"
    then have "maxLoop ?a = 2" by (simp add: attempted_fields)
    from settle_at_3 [OF this nz, of isMobile inp ?query]
    obtain st' es where "state_of (settle isMobile inp (missingPoints ?a) ?query ?a) = Some st'"
      and "effects st' = effects ?a @ PointsFetched # es" by blast
    then show "\<exists>st'. state_of (search_iteration isMobile inp q st) = Some st'
            \<and> PointsFetched \<in> set (added st st')"
      using added_append [OF ea, of st'] eq by auto
  }
  {
    assume "maxLoop st = 4"
    then have "maxLoop ?a = 4" by (simp add: attempted_fields)
    from settle_at_5 [OF this nz, of isMobile inp ?query]
    obtain st' es where "settle isMobile inp (missingPoints ?a) ?query ?a = Continue st'"
      and "maxLoop st' = 5" and "effects st' = effects ?a @ Waited 30000 # es" by blast
    then show "\<exists>st'. search_iteration isMobile inp q st = Continue st' \<and> maxLoop st' = 5
            \<and> Waited 30000 \<in> set (added st st')"
      using added_append [OF ea, of st'] eq by auto
  }
  {
    assume d: "\<not> isMobile \<and> maxLoop st < 15"
    then have "maxLoop ?a < 15" by (simp add: attempted_fields)
    from settle_desktop_within_limit [OF this, of inp ?query] nz d
    show "\<exists>st'. search_iteration isMobile inp q st = Continue st'"
      using eq by simp
  }
  {
    assume d: "\<not> isMobile \<and> maxLoop st = 15"
    then have "maxLoop ?a = 15" by (simp add: attempted_fields)
    from settle_desktop_over_limit [OF this, of inp ?query] nz d
    obtain st' es where "settle isMobile inp (missingPoints ?a) ?query ?a = Break st'"
      and "effects st' = effects ?a @ Logged Stuck # es" by auto
    then show "\<exists>st'. search_iteration isMobile inp q st = Break st'
            \<and> Logged Stuck \<in> set (added st st')"
      using added_append [OF ea, of st'] eq by auto
  }
  {
    assume d: "isMobile \<and> 5 \<le> maxLoop st"
    then have "5 \<le> maxLoop ?a" by (simp add: attempted_fields)
    from settle_mobile_over_5 [OF this, of inp ?query] nz d
    obtain st' es where "settle isMobile inp (missingPoints ?a) ?query ?a = Continue st'"
      and "maxLoop st' = 0" and "effects st' = effects ?a @ es" and "Logged Stuck \<notin> set es" by auto
    then show "\<exists>st'. search_iteration isMobile inp q st = Continue st' \<and> maxLoop st' = 0
            \<and> Logged Stuck \<notin> set (added st st')"
      using added_append [OF ea, of st'] eq by auto
  }
qed

text \<open>
  Claim C4, evaluated at a failing input. Mobile, 30 points missing, twelve planned
  queries, and a dashboard that shows 0 of 30 points after every attempt. The limit
  that the code declares for mobile is 10, and all twelve attempts in a row bring no
  point change; yet the main loop is not left for recovery: the stall counter is set
  back to 0 at the sixth and at the twelfth attempt, the stuck warning is never logged,
  and the loop ends only because the twelve queries are used up.
\<close>

theorem mobile_limit_never_reached:
  "maxLoopLimit True = 10
   \<and> is_Proceed (search_loop True stalled_mobile 0
       [''q1'', ''q2'', ''q3'', ''q4'', ''q5'', ''q6'', ''q7'', ''q8'', ''q9'', ''q10'', ''q11'', ''q12'']
       (start_run initial_Search 30))
   \<and> map_option completedSearches (state_of (search_loop True stalled_mobile 0
       [''q1'', ''q2'', ''q3'', ''q4'', ''q5'', ''q6'', ''q7'', ''q8'', ''q9'', ''q10'', ''q11'', ''q12'']
       (start_run initial_Search 30))) = Some 12
   \<and> map_option earnedPoints (state_of (search_loop True stalled_mobile 0
       [''q1'', ''q2'', ''q3'', ''q4'', ''q5'', ''q6'', ''q7'', ''q8'', ''q9'', ''q10'', ''q11'', ''q12'']
       (start_run initial_Search 30))) = Some 0
   \<and> map_option missingPoints (state_of (search_loop True stalled_mobile 0
       [''q1'', ''q2'', ''q3'', ''q4'', ''q5'', ''q6'', ''q7'', ''q8'', ''q9'', ''q10'', ''q11'', ''q12'']
       (start_run initial_Search 30))) = Some 30
   \<and> map_option maxLoop (state_of (search_loop True stalled_mobile 0
       [''q1'', ''q2'', ''q3'', ''q4'', ''q5'', ''q6'', ''q7'', ''q8'', ''q9'', ''q10'', ''q11'']
       (start_run initial_Search 30))) = Some 5
   \<and> map_option maxLoop (state_of (search_loop True stalled_mobile 0
       [''q1'', ''q2'', ''q3'', ''q4'', ''q5'', ''q6'', ''q7'', ''q8'', ''q9'', ''q10'', ''q11'', ''q12'']
       (start_run initial_Search 30))) = Some 0
   \<and> \<not> gave_up (search_loop True stalled_mobile 0
       [''q1'', ''q2'', ''q3'', ''q4'', ''q5'', ''q6'', ''q7'', ''q8'', ''q9'', ''q10'', ''q11'', ''q12'']
       (start_run initial_Search 30))"
  by (simp add: stalled_mobile_def gave_up_def run_defs)


section \<open>Exceptions that leave \<open>doSearch\<close>\<close>

lemma after_attempt_Throw:
  "after_attempt isMobile inp st = Throw e \<Longrightarrow> finalVerify inp = None \<and> e = FetchError"
  by (simp add: after_attempt_def completion_def refresh_user_agent_def give_up_def Let_def
      split: option.splits if_splits)

lemma settle_Throw:
  "settle isMobile inp new query st = Throw e \<Longrightarrow> finalVerify inp = None \<and> e = FetchError"
  by (cases "note_stall isMobile inp new query st")
     (simp_all add: settle_def note_stall_ends after_attempt_Throw)

lemma search_iteration_Throw:
  "search_iteration isMobile inp q st = Throw e \<Longrightarrow> finalVerify inp = None \<and> e = FetchError"
  by (cases "elapsed inp > searchTimeoutMs")
     (simp add: search_iteration_def, simp add: search_iteration_settle settle_Throw)

lemma search_loop_Throw:
  "search_loop isMobile w i queries st = Throw e \<Longrightarrow>
   \<exists>j. finalVerify (w j) = None \<and> e = FetchError"
proof (induction queries arbitrary: i st)
  case Nil
  then show ?case by simp
next
  case (Cons q queries)
  show ?case
  proof (cases "search_iteration isMobile (w i) q st")
    case (Throw e')
    with Cons.prems have "e' = e" by simp
    with Throw search_iteration_Throw [of isMobile "w i" q st e] show ?thesis by blast
  next
    case (Proceed st1)
    with Cons show ?thesis by simp
  next
    case (Continue st1)
    with Cons show ?thesis by simp
  next
    case (Break st1)
    with Cons show ?thesis by simp
  next
    case (Return st1)
    with Cons show ?thesis by simp
  qed
qed

lemma extra_terms_not_Throw: "extra_terms isMobile drv terms st \<noteq> Throw e"
proof (induction terms arbitrary: st)
  case Nil
  then show ?case by simp
next
  case (Cons t terms)
  show ?case
    using Cons.IH
    by (simp add: Let_def case_prod_beta)
qed

lemma extra_round_Some:
  assumes "getRelatedTerms w i (query_topic (objects w) query) = Some ts"
  shows "extra_round isMobile w i query st =
     (case (if length ts > 3
            then extra_terms isMobile (extraBrowser w) (take 2 (drop 1 ts)) st
            else Proceed st) of
        Return st' \<Rightarrow> Return st'
      | Throw e \<Rightarrow> Throw e
      | Proceed st' \<Rightarrow> if missingPoints st' = 0 then Break st' else Proceed st'
      | Continue st' \<Rightarrow> if missingPoints st' = 0 then Break st' else Proceed st'
      | Break st' \<Rightarrow> if missingPoints st' = 0 then Break st' else Proceed st')"
  by (simp add: extra_round_def assms)

lemma extra_round_Throw:
  assumes "extra_round isMobile w i query st = Throw e"
  shows "getRelatedTerms w i (query_topic (objects w) query) = None"
proof (cases "getRelatedTerms w i (query_topic (objects w) query)")
  case None
  then show ?thesis .
next
  case (Some ts)
  let ?r = "if length ts > 3
            then extra_terms isMobile (extraBrowser w) (take 2 (drop 1 ts)) st else Proceed st"
  have "?r \<noteq> Throw e" for e by (simp add: extra_terms_not_Throw)
  then have "extra_round isMobile w i query st \<noteq> Throw e"
    unfolding extra_round_Some [OF Some] by (cases ?r) simp_all
  with assms show ?thesis by simp
qed

lemma extra_loop_Throw:
  assumes run: "extra_loop isMobile w i allSearchQueries st = Some y"
  shows "y = Throw e \<longrightarrow> i \<le> length allSearchQueries \<longrightarrow>
     (\<exists>j. additional w j = []) \<or> (\<exists>j q. getRelatedTerms w j q = None)"
proof (rule extra_loop.raw_induct
    [where P = "\<lambda>m w i qs st y. y = Throw e \<longrightarrow> i \<le> length qs \<longrightarrow>
        (\<exists>j. additional w j = []) \<or> (\<exists>j q. getRelatedTerms w j q = None)",
      OF _ run], goal_cases)
  case (1 f isMobile w i allSearchQueries st y)
  show ?case
  proof (intro impI)
    assume y: "y = Throw e" and le: "i \<le> length allSearchQueries"
    let ?more = "i \<ge> length allSearchQueries"
    let ?qs = "if ?more then allSearchQueries @ additional w i else allSearchQueries"
    let ?st1 = "if ?more then emit (Logged GenerateMore) st else st"
    show "(\<exists>j. additional w j = []) \<or> (\<exists>j q. getRelatedTerms w j q = None)"
    proof (cases "missingPoints st > 0 \<and> extraSearchCount st < maxExtraSearches isMobile")
      case False
      with 1(2) y show ?thesis by simp
    next
      case True
      note go = this
      show ?thesis
      proof (cases "i \<ge> length ?qs")
        case True
        with le have "additional w i = []" by (auto split: if_splits)
        then show ?thesis by blast
      next
        case False
        then have next_le: "i + 1 \<le> length ?qs" by simp
        show ?thesis
        proof (cases "extra_round isMobile w i (?qs ! i) ?st1")
          case (Proceed st')
          with go False 1(2) have "f isMobile w (i + 1) ?qs st' = Some y"
            by (simp add: Let_def)
          from 1(1) [OF this] y next_le show ?thesis by blast
        next
          case (Throw e')
          from extra_round_Throw [OF this] show ?thesis by blast
        next
          case (Continue st')
          with go False 1(2) y show ?thesis by (simp add: Let_def)
        next
          case (Break st')
          with go False 1(2) y show ?thesis by (simp add: Let_def)
        next
          case (Return st')
          with go False 1(2) y show ?thesis by (simp add: Let_def)
        qed
      qed
    qed
  qed
qed

lemma wrap_up_Throw: "wrap_up isMobile w st = Throw e \<Longrightarrow> detailPoints w = None"
  by (simp add: wrap_up_def Let_def split: if_splits option.splits)

lemma extra_phase_Throw:
  assumes "extra_phase isMobile w allSearchQueries st = Some (Throw e)"
  shows "detailPoints w = None \<or> (\<exists>j. additional w j = [])
     \<or> (\<exists>j q. getRelatedTerms w j q = None)"
proof (cases "missingPoints st > 0")
  case False
  with assms show ?thesis by (simp add: extra_phase_def)
next
  case True
  show ?thesis
  proof (cases "extra_loop isMobile w 0 allSearchQueries (emit (Logged ExtraStart) st)")
    case None
    with True assms show ?thesis by (simp add: extra_phase_def)
  next
    case (Some y)
    show ?thesis
    proof (cases y)
      case (Throw e')
      with extra_loop_Throw [OF Some, of e'] show ?thesis by simp
    next
      case (Proceed st')
      with True Some assms wrap_up_Throw [of isMobile w st' e] show ?thesis
        by (simp add: extra_phase_def)
    next
      case (Continue st')
      with True Some assms wrap_up_Throw [of isMobile w st' e] show ?thesis
        by (simp add: extra_phase_def)
    next
      case (Break st')
      with True Some assms wrap_up_Throw [of isMobile w st' e] show ?thesis
        by (simp add: extra_phase_def)
    next
      case (Return st')
      with True Some assms show ?thesis by (simp add: extra_phase_def)
    qed
  qed
qed


lemma doSearch_Throw:
  assumes ok: "latestTabOk w" "initialPoints w \<noteq> None" "generated w \<noteq> None" "gotoOk w"
    and verify: "\<forall>j. finalVerify (iterations w j) \<noteq> None"
    and more: "\<forall>j. additional w j \<noteq> []"
    and related: "\<forall>j q. getRelatedTerms w j q \<noteq> None"
    and detail: "detailPoints w \<noteq> None"
  shows "doSearch isMobile w s \<noteq> Some (Throw e)"
proof
  assume thrown: "doSearch isMobile w s = Some (Throw e)"
  from ok obtain searchCounters allQueries
    where i: "initialPoints w = Some searchCounters" and g: "generated w = Some allQueries"
    by auto
  let ?st0 = "start_run s (calculatePoints isMobile searchCounters)"
  let ?all = "array_from_Set (shuffleArray w allQueries)"
  let ?loop = "search_loop isMobile (iterations w) 0
                 (flatten_queries isMobile (objects w) ?all) (emit (Waited 2000) ?st0)"
  have nz: "missingPoints ?st0 \<noteq> 0"
    using thrown ok i by (auto simp: doSearch_def Let_def)
  have after: "(case ?loop of
                  Throw e \<Rightarrow> Some (Throw e)
                | Return st \<Rightarrow> Some (Return st)
                | Proceed st \<Rightarrow> extra_phase isMobile w ?all st
                | Continue st \<Rightarrow> extra_phase isMobile w ?all st
                | Break st \<Rightarrow> extra_phase isMobile w ?all st) = Some (Throw e)"
    using thrown ok i g nz by (simp add: doSearch_def Let_def)
  have no_phase: "extra_phase isMobile w ?all st \<noteq> Some (Throw e)" for st
    using extra_phase_Throw [of isMobile w ?all st e] more related detail by auto
  show False
  proof (cases ?loop)
    case (Throw e')
    with search_loop_Throw [of isMobile "iterations w" 0 _ _ e'] verify show False by auto
  next
    case (Proceed st)
    with after no_phase [of st] show False by simp
  next
    case (Continue st)
    with after no_phase [of st] show False by simp
  next
    case (Break st)
    with after no_phase [of st] show False by simp
  next
    case (Return st)
    with after show False by simp
  qed
qed

lemma extra_phase_shape:
  "extra_phase isMobile w qs st = Some y \<Longrightarrow> (\<exists>st. y = Return st) \<or> (\<exists>e. y = Throw e)"
  by (auto simp: extra_phase_def wrap_up_def Let_def split: option.splits flow.splits if_splits)

lemma doSearch_shape:
  assumes "doSearch isMobile w s = Some y"
  shows "(\<exists>st. y = Return st) \<or> (\<exists>e. y = Throw e)"
proof -
  have m: "(\<exists>st. y = Return st) \<or> (\<exists>e. y = Throw e)"
    if "(case L of Throw e \<Rightarrow> Some (Throw e) | Return st \<Rightarrow> Some (Return st)
         | Proceed st \<Rightarrow> extra_phase isMobile w qs st
         | Continue st \<Rightarrow> extra_phase isMobile w qs st
         | Break st \<Rightarrow> extra_phase isMobile w qs st) = Some y" for L qs
    using that extra_phase_shape [of isMobile w qs _ y] by (cases L) auto
  show ?thesis
  proof (cases "latestTabOk w")
    case False
    with assms show ?thesis by (auto simp: doSearch_def)
  next
    case tab: True
    show ?thesis
    proof (cases "initialPoints w")
      case None
      with assms tab show ?thesis by (auto simp: doSearch_def)
    next
      case (Some c)
      show ?thesis
      proof (cases "missingPoints (start_run s (calculatePoints isMobile c)) = 0")
        case True
        with assms tab Some show ?thesis by (auto simp: doSearch_def Let_def)
      next
        case nz: False
        show ?thesis
        proof (cases "generated w")
          case None
          with assms tab Some nz show ?thesis by (auto simp: doSearch_def Let_def)
        next
          case plan: (Some allQueries)
          show ?thesis
          proof (cases "gotoOk w")
            case False
            with assms tab Some nz plan show ?thesis by (auto simp: doSearch_def Let_def)
          next
            case True
            with assms tab Some nz plan show ?thesis
              by (intro m) (simp add: doSearch_def Let_def)
          qed
        qed
      qed
    qed
  qed
qed

text \<open>
  Each pass of the retry loop of \<open>bingSearch\<close> raises the failure counter by at most
  one, and so does the whole call by at most five.
\<close>

lemma bing_pass_count:
  "(bing_pass d i s = Returns c s' \<longrightarrow> consecutiveFailures s' \<le> consecutiveFailures s + 1)
   \<and> (bing_pass d i s = Continues s' \<longrightarrow> consecutiveFailures s' \<le> consecutiveFailures s + 1)
   \<and> (bing_pass d i s = Breaks s' \<longrightarrow> consecutiveFailures s' \<le> consecutiveFailures s + 1)"
  by (auto simp: bing_pass_def handleSearchFailure_def handleSearchSuccess_def Let_def
      split: attempt.splits option.splits if_splits)

lemma bingSearch_from_count:
  "consecutiveFailures (snd (bingSearch_from d i s)) \<le> consecutiveFailures s + (5 - i)"
proof (induction d i s rule: bingSearch_from.induct)
  case (1 d i s)
  show ?case
  proof (cases "i < 5")
    case False
    then show ?thesis by (simp add: bingSearch_from.simps [of d i])
  next
    case True
    show ?thesis
    proof (cases "bing_pass d i s")
      case (Continues s')
      have "consecutiveFailures (snd (bingSearch_from d (i + 1) s'))
          \<le> consecutiveFailures s' + (5 - (i + 1))"
        using True Continues by (rule "1.IH")
      moreover have "consecutiveFailures s' \<le> consecutiveFailures s + 1"
        using bing_pass_count [of d i s _ s'] Continues by simp
      ultimately show ?thesis
        using True Continues by (simp add: bingSearch_from.simps [of d i])
    next
      case (Returns c' s')
      with True bing_pass_count [of d i s c' s'] show ?thesis
        by (simp add: bingSearch_from.simps [of d i])
    next
      case (Breaks s')
      with True bing_pass_count [of d i s _ s'] show ?thesis
        by (simp add: bingSearch_from.simps [of d i])
    qed
  qed
qed

text \<open>
  When every related-terms lookup delivers more than three terms, each round of the
  supplementary loop makes at least one attempt, so the loop ends.
\<close>

lemma extra_terms_count:
  "state_of (extra_terms isMobile drv terms st) = Some st' \<Longrightarrow>
   extraSearchCount st \<le> extraSearchCount st'"
proof (induction terms arbitrary: st)
  case Nil
  then show ?case by simp
next
  case (Cons t terms)
  show ?case
  proof (cases "extraSearchCount st \<ge> maxExtraSearches isMobile")
    case True
    with Cons.prems show ?thesis by simp
  next
    case False
    let ?r = "bingSearch (drv (extraSearchCount st)) (engine st)"
    let ?new = "calculatePoints isMobile (fst ?r)"
    let ?st1 = "(emit (Searched t) st)\<lparr>engine := snd ?r, extraSearchCount := extraSearchCount st + 1\<rparr>"
    let ?st2 = "if ?new = missingPoints ?st1 then ?st1\<lparr>maxLoop := maxLoop ?st1 + 1\<rparr>
                else ?st1\<lparr>maxLoop := 0\<rparr>"
    let ?st3 = "?st2\<lparr>missingPoints := ?new\<rparr>"
    have c3: "extraSearchCount ?st3 = extraSearchCount st + 1"
      by (simp add: emit_def)
    have step: "extra_terms isMobile drv (t # terms) st =
        (if missingPoints ?st3 = 0 then Break ?st3
         else if maxLoop ?st3 > 5 then Return (emit (Logged ExtraStuck) ?st3)
         else extra_terms isMobile drv terms ?st3)"
      using False by (simp add: Let_def case_prod_beta)
    show ?thesis
    proof (cases "missingPoints ?st3 = 0 \<or> maxLoop ?st3 > 5")
      case True
      with Cons.prems c3 show ?thesis
        unfolding step by (auto simp: emit_def split: if_splits)
    next
      case False
      with Cons.prems have "state_of (extra_terms isMobile drv terms ?st3) = Some st'"
        unfolding step by simp
      from Cons.IH [OF this] c3 show ?thesis by simp
    qed
  qed
qed

lemma extra_terms_progress:
  assumes "extraSearchCount st < maxExtraSearches isMobile"
    and "state_of (extra_terms isMobile drv (t # terms) st) = Some st'"
  shows "extraSearchCount st < extraSearchCount st'"
proof -
  let ?r = "bingSearch (drv (extraSearchCount st)) (engine st)"
  let ?new = "calculatePoints isMobile (fst ?r)"
  let ?st1 = "(emit (Searched t) st)\<lparr>engine := snd ?r, extraSearchCount := extraSearchCount st + 1\<rparr>"
  let ?st2 = "if ?new = missingPoints ?st1 then ?st1\<lparr>maxLoop := maxLoop ?st1 + 1\<rparr>
              else ?st1\<lparr>maxLoop := 0\<rparr>"
  let ?st3 = "?st2\<lparr>missingPoints := ?new\<rparr>"
  have c3: "extraSearchCount ?st3 = extraSearchCount st + 1"
    by (simp add: emit_def)
  have step: "extra_terms isMobile drv (t # terms) st =
      (if missingPoints ?st3 = 0 then Break ?st3
       else if maxLoop ?st3 > 5 then Return (emit (Logged ExtraStuck) ?st3)
       else extra_terms isMobile drv terms ?st3)"
    using assms(1) by (simp add: Let_def case_prod_beta)
  show ?thesis
  proof (cases "missingPoints ?st3 = 0 \<or> maxLoop ?st3 > 5")
    case True
    with assms(2) c3 show ?thesis
      unfolding step by (auto simp: emit_def split: if_splits)
  next
    case False
    with assms(2) have "state_of (extra_terms isMobile drv terms ?st3) = Some st'"
      unfolding step by simp
    from extra_terms_count [OF this] c3 show ?thesis by simp
  qed
qed

lemma extra_round_progress:
  assumes ts: "getRelatedTerms w i (query_topic (objects w) query) = Some ts" "3 < length ts"
    and c: "extraSearchCount st < maxExtraSearches isMobile"
    and r: "state_of (extra_round isMobile w i query st) = Some st'"
  shows "extraSearchCount st < extraSearchCount st'"
proof -
  from ts(2) obtain t terms where two: "take 2 (drop 1 ts) = t # terms"
    by (cases ts; cases "tl ts") auto
  let ?r = "extra_terms isMobile (extraBrowser w) (t # terms) st"
  have "state_of ?r = Some st'"
    using r ts(2) unfolding extra_round_Some [OF ts(1)] two
    by (cases ?r) (simp_all split: if_splits)
  from extra_terms_progress [OF c this] show ?thesis .
qed

lemma extra_loop_returns:
  assumes lookups: "\<forall>j q. \<exists>ts. getRelatedTerms w j q = Some ts \<and> 3 < length ts"
    and more: "\<forall>j. additional w j \<noteq> []"
  shows "i \<le> length allSearchQueries \<Longrightarrow> \<exists>y. extra_loop isMobile w i allSearchQueries st = Some y"
proof (induction "maxExtraSearches isMobile - extraSearchCount st"
    arbitrary: i allSearchQueries st rule: less_induct)
  case less
  let ?more = "i \<ge> length allSearchQueries"
  let ?qs = "if ?more then allSearchQueries @ additional w i else allSearchQueries"
  let ?st1 = "if ?more then emit (Logged GenerateMore) st else st"
  show ?case
  proof (cases "missingPoints st > 0 \<and> extraSearchCount st < maxExtraSearches isMobile")
    case False
    then show ?thesis by (subst extra_loop.simps) auto
  next
    case True
    have len: "i < length ?qs" using less.prems more by (auto simp: less_le)
    have c1: "extraSearchCount ?st1 = extraSearchCount st" by (simp add: emit_def)
    obtain ts where ts: "getRelatedTerms w i (query_topic (objects w) (?qs ! i)) = Some ts"
      "3 < length ts" using lookups by blast
    have unfold: "extra_loop isMobile w i allSearchQueries st =
        (case extra_round isMobile w i (?qs ! i) ?st1 of
           Proceed st' \<Rightarrow> extra_loop isMobile w (i + 1) ?qs st'
         | other \<Rightarrow> Some other)"
      using True len by (subst extra_loop.simps) (simp add: Let_def)
    show ?thesis
    proof (cases "extra_round isMobile w i (?qs ! i) ?st1")
      case (Proceed st')
      then have "state_of (extra_round isMobile w i (?qs ! i) ?st1) = Some st'" by simp
      from extra_round_progress [OF ts _ this] True c1
      have "extraSearchCount st < extraSearchCount st'" by simp
      with True have m: "maxExtraSearches isMobile - extraSearchCount st'
          < maxExtraSearches isMobile - extraSearchCount st" by arith
      have "i + 1 \<le> length ?qs" using len by simp
      from less.hyps [OF m this] obtain y where "extra_loop isMobile w (i + 1) ?qs st' = Some y"
        by blast
      with Proceed show ?thesis unfolding unfold by simp
    next
      case (Continue st')
      then show ?thesis unfolding unfold by simp
    next
      case (Break st')
      then show ?thesis unfolding unfold by simp
    next
      case (Return st')
      then show ?thesis unfolding unfold by simp
    next
      case (Throw e)
      then show ?thesis unfolding unfold by simp
    qed
  qed
qed

lemma extra_phase_returns:
  assumes "\<forall>j q. \<exists>ts. getRelatedTerms w j q = Some ts \<and> 3 < length ts"
    and "\<forall>j. additional w j \<noteq> []"
  shows "\<exists>y. extra_phase isMobile w allSearchQueries st = Some y"
proof -
  obtain y where "extra_loop isMobile w 0 allSearchQueries (emit (Logged ExtraStart) st) = Some y"
    using extra_loop_returns [OF assms, of 0 allSearchQueries isMobile] by auto
  then show ?thesis
    by (cases y) (simp_all add: extra_phase_def)
qed

lemma doSearch_returns_or_throws:
  assumes "\<forall>j q. \<exists>ts. getRelatedTerms w j q = Some ts \<and> 3 < length ts"
    and "\<forall>j. additional w j \<noteq> []"
  shows "\<exists>y. doSearch isMobile w s = Some y"
proof -
  have p: "\<exists>y. extra_phase isMobile w qs st = Some y" for qs st
    using assms by (rule extra_phase_returns)
  show ?thesis
    unfolding doSearch_def Let_def
    by (simp add: p split: option.splits flow.splits)
qed

text \<open>
  Claim C2, as amended. \<open>bingSearch\<close> always returns a \<open>Counters\<close> value and reads at
  most the first five passes of its retry loop: two browsers that agree on these passes
  and on the fallback fetch give the same result, and the call records at most five
  failures. \<open>doSearch\<close> has no handler of its own: it throws when \<open>getLatestTab\<close> or
  the first fetch of the counters throws, and, with a non-zero deficit, when the query
  planning or the navigation throws. When \<open>getLatestTab\<close>, the first fetch, the query
  planning, the navigation, every verification fetch of the completion branch and the
  closing fetch succeed, \<open>generateAdditionalQueries\<close> never comes back empty and no
  related-terms lookup comes back undefined, then, whatever happens inside the query
  attempts, a call of \<open>doSearch\<close> that comes back returns normally; and it does come
  back, returning normally, when moreover every related-terms lookup delivers more than
  three terms.
\<close>

theorem doSearch_exceptions:
  "((\<forall>j<5. attempts d j = attempts d' j) \<and> fallbackPoints d = fallbackPoints d' \<longrightarrow>
      bingSearch d s = bingSearch d' s)
   \<and> consecutiveFailures (snd (bingSearch d s)) \<le> consecutiveFailures s + 5
   \<and> (\<not> latestTabOk w \<longrightarrow> doSearch isMobile w s = Some (Throw TabError))
   \<and> (latestTabOk w \<and> initialPoints w = None \<longrightarrow> doSearch isMobile w s = Some (Throw FetchError))
   \<and> (latestTabOk w \<and> initialPoints w = Some c \<and> calculatePoints isMobile c \<noteq> 0
        \<and> generated w = None \<longrightarrow> doSearch isMobile w s = Some (Throw PlanError))
   \<and> (latestTabOk w \<and> initialPoints w = Some c \<and> calculatePoints isMobile c \<noteq> 0
        \<and> generated w \<noteq> None \<and> \<not> gotoOk w \<longrightarrow> doSearch isMobile w s = Some (Throw GotoError))
   \<and> (latestTabOk w \<and> initialPoints w \<noteq> None \<and> generated w \<noteq> None \<and> gotoOk w
        \<and> (\<forall>j. finalVerify (iterations w j) \<noteq> None) \<and> (\<forall>j. additional w j \<noteq> [])
        \<and> (\<forall>j q. getRelatedTerms w j q \<noteq> None) \<and> detailPoints w \<noteq> None \<longrightarrow>
        doSearch isMobile w s = None \<or> (\<exists>st. doSearch isMobile w s = Some (Return st)))
   \<and> (latestTabOk w \<and> initialPoints w \<noteq> None \<and> generated w \<noteq> None \<and> gotoOk w
        \<and> (\<forall>j. finalVerify (iterations w j) \<noteq> None) \<and> (\<forall>j. additional w j \<noteq> [])
        \<and> (\<forall>j q. \<exists>ts. getRelatedTerms w j q = Some ts \<and> 3 < length ts)
        \<and> detailPoints w \<noteq> None \<longrightarrow>
        (\<exists>st. doSearch isMobile w s = Some (Return st)))"
proof (intro conjI impI)
  assume "(\<forall>j<5. attempts d j = attempts d' j) \<and> fallbackPoints d = fallbackPoints d'"
  then show "bingSearch d s = bingSearch d' s"
    unfolding bingSearch_def by (intro bingSearch_from_cong) simp_all
next
  show "consecutiveFailures (snd (bingSearch d s)) \<le> consecutiveFailures s + 5"
    using bingSearch_from_count [of d 0 s] by (simp add: bingSearch_def)
next
  assume "\<not> latestTabOk w"
  then show "doSearch isMobile w s = Some (Throw TabError)" by (simp add: doSearch_def)
next
  assume "latestTabOk w \<and> initialPoints w = None"
  then show "doSearch isMobile w s = Some (Throw FetchError)" by (simp add: doSearch_def)
next
  assume "latestTabOk w \<and> initialPoints w = Some c \<and> calculatePoints isMobile c \<noteq> 0
        \<and> generated w = None"
  then show "doSearch isMobile w s = Some (Throw PlanError)"
    by (simp add: doSearch_def start_run_def)
next
  assume "latestTabOk w \<and> initialPoints w = Some c \<and> calculatePoints isMobile c \<noteq> 0
        \<and> generated w \<noteq> None \<and> \<not> gotoOk w"
  then show "doSearch isMobile w s = Some (Throw GotoError)"
    by (auto simp: doSearch_def start_run_def)
next
  assume a: "latestTabOk w \<and> initialPoints w \<noteq> None \<and> generated w \<noteq> None \<and> gotoOk w
        \<and> (\<forall>j. finalVerify (iterations w j) \<noteq> None) \<and> (\<forall>j. additional w j \<noteq> [])
        \<and> (\<forall>j q. getRelatedTerms w j q \<noteq> None) \<and> detailPoints w \<noteq> None"
  have n: "doSearch isMobile w s \<noteq> Some (Throw e)" for e
    using a by (intro doSearch_Throw) simp_all
  show "doSearch isMobile w s = None \<or> (\<exists>st. doSearch isMobile w s = Some (Return st))"
  proof (cases "doSearch isMobile w s")
    case None
    then show ?thesis by simp
  next
    case (Some y)
    with doSearch_shape [OF Some] n show ?thesis by auto
  qed
next
  assume a: "latestTabOk w \<and> initialPoints w \<noteq> None \<and> generated w \<noteq> None \<and> gotoOk w
        \<and> (\<forall>j. finalVerify (iterations w j) \<noteq> None) \<and> (\<forall>j. additional w j \<noteq> [])
        \<and> (\<forall>j q. \<exists>ts. getRelatedTerms w j q = Some ts \<and> 3 < length ts)
        \<and> detailPoints w \<noteq> None"
  have r: "\<forall>j q. getRelatedTerms w j q \<noteq> None"
  proof (intro allI)
    fix j q
    obtain ts where "getRelatedTerms w j q = Some ts" using a by blast
    then show "getRelatedTerms w j q \<noteq> None" by simp
  qed
  have n: "doSearch isMobile w s \<noteq> Some (Throw e)" for e
    using a r by (intro doSearch_Throw) simp_all
  obtain y where y: "doSearch isMobile w s = Some y"
    using doSearch_returns_or_throws [of w isMobile s] a by blast
  with doSearch_shape [OF y] n show "\<exists>st. doSearch isMobile w s = Some (Return st)" by auto
qed

text \<open>
  The amended claim C2 for a browser that fails in each of the five passes, with the
  tabs reset after each of the first four: the call records five failures and returns
  the counters of the fallback fetch; a browser that differs from the sixth pass on
  gives the same result, and one that answers in the fifth pass gives another. And for
  the desktop world in which nothing changes the counters and every related-terms
  lookup delivers four terms: \<open>doSearch\<close> returns normally.
\<close>

theorem doSearch_exceptions_witness:
  "bingSearch (flaky_browser (desktop_points 0 30)) initial_Search
     = bingSearch ((flaky_browser (desktop_points 0 30))\<lparr>attempts :=
         (attempts (flaky_browser (desktop_points 0 30))) (5 := Fetched (Some (desktop_points 10 30)))\<rparr>)
         initial_Search
   \<and> fst (bingSearch (flaky_browser (desktop_points 0 30)) initial_Search) = desktop_points 0 30
   \<and> consecutiveFailures (snd (bingSearch (flaky_browser (desktop_points 0 30)) initial_Search)) = 5
   \<and> consecutiveFailures (snd (bingSearch (flaky_browser (desktop_points 0 30)) initial_Search))
       \<le> consecutiveFailures initial_Search + 5
   \<and> fst (bingSearch ((flaky_browser (desktop_points 0 30))\<lparr>attempts :=
         (attempts (flaky_browser (desktop_points 0 30))) (4 := Fetched (Some (desktop_points 10 30)))\<rparr>)
         initial_Search) = desktop_points 10 30
   \<and> (\<exists>st. doSearch False (still_world 0 four_terms (Some (desktop_points 0 30))) initial_Search
         = Some (Return st))"
proof -
  let ?d = "flaky_browser (desktop_points 0 30)"
  let ?d' = "?d\<lparr>attempts := (attempts ?d) (5 := Fetched (Some (desktop_points 10 30)))\<rparr>"
  let ?d4 = "?d\<lparr>attempts := (attempts ?d) (4 := Fetched (Some (desktop_points 10 30)))\<rparr>"
  let ?w = "still_world 0 four_terms (Some (desktop_points 0 30))"
  have a: "bingSearch ?d initial_Search = bingSearch ?d' initial_Search"
    using doSearch_exceptions [where d = "?d" and d' = "?d'" and s = initial_Search] by simp
  have b: "consecutiveFailures (snd (bingSearch ?d initial_Search))
       \<le> consecutiveFailures initial_Search + 5"
    using doSearch_exceptions [where d = "?d" and s = initial_Search] by blast
  have p: "bing_pass ?d i s = (if i = 4 then Breaks (handleSearchFailure s)
                               else Continues (handleSearchFailure s))" for i s
    by (simp add: bing_pass_def flaky_browser_def Let_def)
  have e: "bingSearch ?d s
      = (desktop_points 0 30, handleSearchFailure (handleSearchFailure (handleSearchFailure
           (handleSearchFailure (handleSearchFailure s)))))" for s
    by (simp add: bingSearch_def bingSearch_from.simps [of ?d] p getEmptySearchCounters_def
        flaky_browser_def [of "desktop_points 0 30", THEN arg_cong, of fallbackPoints])
  have c: "fst (bingSearch ?d initial_Search) = desktop_points 0 30"
    "consecutiveFailures (snd (bingSearch ?d initial_Search)) = 5"
    by (simp_all add: e handleSearchFailure_def initial_Search_def)
  have p4: "bing_pass ?d4 i s = (if i = 4 then Returns (desktop_points 10 30) (handleSearchSuccess s)
                                 else Continues (handleSearchFailure s))" for i s
    by (simp add: bing_pass_def flaky_browser_def Let_def)
  have f: "fst (bingSearch ?d4 initial_Search) = desktop_points 10 30"
    by (simp add: bingSearch_def bingSearch_from.simps [of ?d4] p4)
  have g: "\<exists>st. doSearch False ?w initial_Search = Some (Return st)"
    using doSearch_exceptions [where w = "?w" and isMobile = False and s = initial_Search]
    by (simp add: still_world_def quiet_def four_terms_def)
  from a b c f g show ?thesis by blast
qed

text \<open>
  Claim C2 as stated fails: when the first fetch of the counters throws, the exception
  leaves \<open>doSearch\<close>.
\<close>

theorem doSearch_throws_counterexample:
  "doSearch True (still_world 0 [] None) initial_Search = Some (Throw FetchError)"
  by (simp add: doSearch_def still_world_def)

text \<open>
  So does the \<open>TypeError\<close> of a related-terms lookup that comes back undefined: on desktop
  with 30 points missing and the budget used up, the first round of the supplementary
  loop reads the length of the undefined result.
\<close>

lemma doSearch_undefined_terms:
  "doSearch False ((still_world 1200001 [] (Some (desktop_points 0 30)))
       \<lparr>getRelatedTerms := \<lambda>i q. None\<rparr>) initial_Search = Some (Throw TypeError)"
  by (simp add: doSearch_def still_world_def array_from_Set_def Set_add_def flatten_queries_def
      extra_phase_def extra_round_def maxExtraSearches_def extra_loop.simps run_defs)


section \<open>The wall-clock budget and the supplementary searches\<close>

lemmas phase_defs = effects_of_def doSearch_def still_world_def four_terms_def array_from_Set_def
  Set_add_def flatten_queries_def extra_phase_def extra_round_def maxExtraSearches_def wrap_up_def

text \<open>
  Claim C7, evaluated at a failing input. Desktop, 30 points missing, one planned query;
  the clock already shows more than 20 minutes at the first check of the main loop, and
  every related-terms lookup returns four terms. The main loop logs the timeout and
  makes no attempt, but the supplementary loop, which never reads the clock, then
  starts six attempts before the stall counter ends the call.
\<close>

theorem searches_after_timeout:
  "effects_of (doSearch False (still_world 1200001 four_terms (Some (desktop_points 0 30)))
       initial_Search)
     = Some [PointsFetched, Waited 2000, Logged Timeout, Logged ExtraStart,
             Searched ''news today'', Searched ''news live'', Logged GenerateMore,
             Searched ''news today'', Searched ''news live'', Logged GenerateMore,
             Searched ''news today'', Searched ''news live'', Logged ExtraStuck]"
  by (simp add: phase_defs extra_loop.simps run_defs)

lemma extra_round_few_terms:
  "getRelatedTerms w i (query_topic (objects w) query) = Some ts \<Longrightarrow> length ts \<le> 3 \<Longrightarrow>
   missingPoints st \<noteq> 0 \<Longrightarrow> extra_round isMobile w i query st = Proceed st"
  by (simp add: extra_round_def)

lemma extra_loop_never_returns:
  assumes run: "extra_loop isMobile w i allSearchQueries st = Some y"
  shows "(\<forall>j q. \<exists>ts. getRelatedTerms w j q = Some ts \<and> length ts \<le> 3) \<longrightarrow>
     (\<forall>j. additional w j \<noteq> []) \<longrightarrow>
     \<not> (0 < missingPoints st \<and> extraSearchCount st < maxExtraSearches isMobile
        \<and> i \<le> length allSearchQueries)"
proof (rule extra_loop.raw_induct
    [where P = "\<lambda>m w i qs st y.
        (\<forall>j q. \<exists>ts. getRelatedTerms w j q = Some ts \<and> length ts \<le> 3) \<longrightarrow>
        (\<forall>j. additional w j \<noteq> []) \<longrightarrow>
        \<not> (0 < missingPoints st \<and> extraSearchCount st < maxExtraSearches m \<and> i \<le> length qs)",
      OF _ run], goal_cases)
  case (1 f isMobile w i allSearchQueries st y)
  show ?case
  proof (intro impI notI)
    assume few: "\<forall>j q. \<exists>ts. getRelatedTerms w j q = Some ts \<and> length ts \<le> 3"
      and more: "\<forall>j. additional w j \<noteq> []"
      and go: "0 < missingPoints st \<and> extraSearchCount st < maxExtraSearches isMobile
        \<and> i \<le> length allSearchQueries"
    let ?more = "i \<ge> length allSearchQueries"
    let ?qs = "if ?more then allSearchQueries @ additional w i else allSearchQueries"
    let ?st1 = "if ?more then emit (Logged GenerateMore) st else st"
    have len: "i < length ?qs" using go more by (auto simp: less_le)
    have st1: "missingPoints ?st1 = missingPoints st" "extraSearchCount ?st1 = extraSearchCount st"
      by (simp_all add: emit_def)
    obtain ts where ts: "getRelatedTerms w i (query_topic (objects w) (?qs ! i)) = Some ts"
      "length ts \<le> 3" using few by blast
    have round: "extra_round isMobile w i (?qs ! i) ?st1 = Proceed ?st1"
      using ts go by (intro extra_round_few_terms) (simp_all add: st1)
    have "f isMobile w (i + 1) ?qs ?st1 = Some y"
      using 1(2) go len round by (simp add: Let_def)
    from 1(1) [OF this] few more have
      "\<not> (0 < missingPoints ?st1 \<and> extraSearchCount ?st1 < maxExtraSearches isMobile
          \<and> i + 1 \<le> length ?qs)" by blast
    with go len show False by (simp add: st1)
  qed
qed

lemma extra_loop_diverges:
  assumes "\<forall>j q. \<exists>ts. getRelatedTerms w j q = Some ts \<and> length ts \<le> 3"
    and "\<forall>j. additional w j \<noteq> []"
    and "0 < missingPoints st" and "extraSearchCount st < maxExtraSearches isMobile"
    and "i \<le> length allSearchQueries"
  shows "extra_loop isMobile w i allSearchQueries st = None"
proof (cases "extra_loop isMobile w i allSearchQueries st")
  case None
  then show ?thesis .
next
  case (Some y)
  from extra_loop_never_returns [OF Some] assms show ?thesis by blast
qed

text \<open>
  What does hold of the supplementary phase: in whatever way the loop is left, it has
  made at most 20 attempts on mobile and at most 50 on desktop.
\<close>

lemma extra_terms_cap:
  "extraSearchCount st \<le> maxExtraSearches isMobile \<Longrightarrow>
   state_of (extra_terms isMobile drv terms st) = Some st' \<Longrightarrow>
   extraSearchCount st' \<le> maxExtraSearches isMobile"
proof (induction terms arbitrary: st)
  case Nil
  then show ?case by simp
next
  case (Cons t terms)
  show ?case
  proof (cases "extraSearchCount st \<ge> maxExtraSearches isMobile")
    case True
    with Cons.prems show ?thesis by simp
  next
    case False
    let ?r = "bingSearch (drv (extraSearchCount st)) (engine st)"
    let ?new = "calculatePoints isMobile (fst ?r)"
    let ?st1 = "(emit (Searched t) st)\<lparr>engine := snd ?r, extraSearchCount := extraSearchCount st + 1\<rparr>"
    let ?st2 = "if ?new = missingPoints ?st1 then ?st1\<lparr>maxLoop := maxLoop ?st1 + 1\<rparr>
                else ?st1\<lparr>maxLoop := 0\<rparr>"
    let ?st3 = "?st2\<lparr>missingPoints := ?new\<rparr>"
    have c3: "extraSearchCount ?st3 \<le> maxExtraSearches isMobile"
      using False by (simp add: emit_def)
    have step: "extra_terms isMobile drv (t # terms) st =
        (if missingPoints ?st3 = 0 then Break ?st3
         else if maxLoop ?st3 > 5 then Return (emit (Logged ExtraStuck) ?st3)
         else extra_terms isMobile drv terms ?st3)"
      using False by (simp add: Let_def case_prod_beta)
    show ?thesis
    proof (cases "missingPoints ?st3 = 0 \<or> maxLoop ?st3 > 5")
      case True
      with Cons.prems(2) c3 show ?thesis
        unfolding step by (auto simp: emit_def split: if_splits)
    next
      case False
      with Cons.prems(2) have "state_of (extra_terms isMobile drv terms ?st3) = Some st'"
        unfolding step by simp
      from Cons.IH [OF c3 this] show ?thesis .
    qed
  qed
qed

lemma extra_round_cap:
  assumes "extraSearchCount st \<le> maxExtraSearches isMobile"
    and "state_of (extra_round isMobile w i query st) = Some st'"
  shows "extraSearchCount st' \<le> maxExtraSearches isMobile"
proof (cases "getRelatedTerms w i (query_topic (objects w) query)")
  case None
  with assms(2) show ?thesis by (simp add: extra_round_def)
next
  case (Some ts)
  let ?r = "if length ts > 3
            then extra_terms isMobile (extraBrowser w) (take 2 (drop 1 ts)) st else Proceed st"
  have r: "state_of ?r = Some st'"
    using assms(2) unfolding extra_round_Some [OF Some]
    by (cases ?r) (simp_all split: if_splits)
  show ?thesis
  proof (cases "length ts > 3")
    case True
    with r extra_terms_cap [OF assms(1), of "extraBrowser w" "take 2 (drop 1 ts)" st']
    show ?thesis by simp
  next
    case False
    with r assms(1) show ?thesis by simp
  qed
qed

lemma extra_loop_cap:
  assumes run: "extra_loop isMobile w i allSearchQueries st = Some y"
  shows "extraSearchCount st \<le> maxExtraSearches isMobile \<longrightarrow>
     (\<forall>st'. state_of y = Some st' \<longrightarrow> extraSearchCount st' \<le> maxExtraSearches isMobile)"
proof (rule extra_loop.raw_induct
    [where P = "\<lambda>m w i qs st y. extraSearchCount st \<le> maxExtraSearches m \<longrightarrow>
        (\<forall>st'. state_of y = Some st' \<longrightarrow> extraSearchCount st' \<le> maxExtraSearches m)",
      OF _ run], goal_cases)
  case (1 f isMobile w i allSearchQueries st y)
  show ?case
  proof (intro impI allI)
    fix st'
    assume c: "extraSearchCount st \<le> maxExtraSearches isMobile" and y: "state_of y = Some st'"
    let ?more = "i \<ge> length allSearchQueries"
    let ?qs = "if ?more then allSearchQueries @ additional w i else allSearchQueries"
    let ?st1 = "if ?more then emit (Logged GenerateMore) st else st"
    have c1: "extraSearchCount ?st1 \<le> maxExtraSearches isMobile" using c by (simp add: emit_def)
    show "extraSearchCount st' \<le> maxExtraSearches isMobile"
    proof (cases "missingPoints st > 0 \<and> extraSearchCount st < maxExtraSearches isMobile")
      case False
      with 1(2) y c show ?thesis by auto
    next
      case True
      note go = this
      show ?thesis
      proof (cases "i \<ge> length ?qs")
        case True
        with go 1(2) y show ?thesis by (auto simp: Let_def)
      next
        case False
        note inside = this
        show ?thesis
        proof (cases "extra_round isMobile w i (?qs ! i) ?st1")
          case (Proceed st2)
          then have c2: "extraSearchCount st2 \<le> maxExtraSearches isMobile"
            using extra_round_cap [OF c1, of w i "?qs ! i" st2] by simp
          from Proceed go inside 1(2) have "f isMobile w (i + 1) ?qs st2 = Some y"
            by (simp add: Let_def)
          from 1(1) [OF this] c2 y show ?thesis by blast
        next
          case (Throw e)
          with go inside 1(2) have "y = Throw e" by (simp add: Let_def)
          with y show ?thesis by simp
        next
          case (Continue st2)
          with go inside 1(2) have "y = Continue st2" by (simp add: Let_def)
          with y Continue extra_round_cap [OF c1, of w i "?qs ! i" st'] show ?thesis by simp
        next
          case (Break st2)
          with go inside 1(2) have "y = Break st2" by (simp add: Let_def)
          with y Break extra_round_cap [OF c1, of w i "?qs ! i" st'] show ?thesis by simp
        next
          case (Return st2)
          with go inside 1(2) have "y = Return st2" by (simp add: Let_def)
          with y Return extra_round_cap [OF c1, of w i "?qs ! i" st'] show ?thesis by simp
        qed
      qed
    qed
  qed
qed

text \<open>
  Claim C9, evaluated at a failing input. Desktop, 30 points missing, one planned query
  whose search changes nothing; every related-terms lookup comes back empty (as it does
  when the lookup fails) and \<open>generateAdditionalQueries\<close> keeps delivering queries. The
  supplementary loop then makes no attempt, so neither its attempt count nor the deficit
  nor the stall counter changes, and the call of \<open>doSearch\<close> never returns.
\<close>

theorem extra_search_runs_forever:
  "doSearch False (still_world 0 [] (Some (desktop_points 0 30))) initial_Search = None"
proof -
  let ?w = "still_world 0 [] (Some (desktop_points 0 30))"
  have d: "extra_loop False ?w 0 qs st = None"
    if "0 < missingPoints st" "extraSearchCount st = 0" for qs st
    using that
    by (intro extra_loop_diverges) (simp_all add: still_world_def maxExtraSearches_def)
  have f: "latestTabOk ?w" "initialPoints ?w = Some (desktop_points 0 30)"
    "generated ?w = Some [Text ''news'']" "shuffleArray ?w = (\<lambda>xs. xs)" "gotoOk ?w"
    "iterations ?w = (\<lambda>i. (quiet (desktop_points 0 30))\<lparr>elapsed := 0\<rparr>)"
    by (simp_all add: still_world_def)
  show ?thesis
    by (simp add: doSearch_def f array_from_Set_def Set_add_def flatten_queries_def
        extra_phase_def run_defs d)
qed


end
